theory Spec2Isabelle
  imports Main "HOL-Library.Word"
begin

section \<open>Values shared by the orchestrator and the drivers\<close>

text \<open>
  Go's \<open>uint\<close> is a 64-bit word. Go's \<open>int\<close> is modelled by its numeric value, an
  \<open>int\<close> in the signed 64-bit range: the conversion \<open>int(v)\<close> of a \<open>uint\<close> is \<open>sint v\<close>
  and the conversion \<open>uint(x)\<close> of an \<open>int\<close> is \<open>word_of_int x\<close>. The counter
  \<open>appliedCount\<close> is bounded by the number of records of one operation and is kept
  as an unbounded \<open>int\<close>.
\<close>

type_synonym go_uint = "64 word"

type_synonym body = string

text \<open>
  Go \<open>error\<close> values. \<open>Errorf fmt n err\<close> is \<open>fmt.Errorf(fmt, n, err)\<close>,
  \<open>DatabaseError orig txt\<close> is \<open>&database.Error{OrigErr: orig, ...}\<close> with the text of
  its \<open>Err\<close> or \<open>Query\<close> field, \<open>PqError name\<close> is a \<open>*pq.Error\<close> whose
  \<open>Code.Name()\<close> is \<open>name\<close>, \<open>MultiError a b\<close> is \<open>multierror.Append(a, b)\<close>,
  \<open>PathError op path err\<close> is \<open>&os.PathError{Op: op, Path: path, Err: err}\<close>, the
  shape in which source drivers report a missing version.
\<close>

datatype error =
    ErrNoChange
  | ErrNotExist
  | ErrNoRows
  | PqError string
  | ErrorString string
  | DatabaseError error string
  | MultiError error error
  | PathError string string error
  | Errorf string int error

text \<open>
  \<open>errors.Is\<close>: the error itself, the error it wraps (\<open>%w\<close> of \<open>fmt.Errorf\<close>,
  \<open>Err\<close> of an \<open>*os.PathError\<close>), or one of the errors a \<open>*multierror.Error\<close>
  holds (its \<open>Unwrap\<close> walks them in order). \<open>database.Error\<close> has no \<open>Unwrap\<close>.
\<close>

fun errors_Is :: "error \<Rightarrow> error \<Rightarrow> bool" where
  "errors_Is (Errorf msg n err) target =
     (Errorf msg n err = target \<or> errors_Is err target)"
| "errors_Is (MultiError a b) target =
     (MultiError a b = target \<or> errors_Is a target \<or> errors_Is b target)"
| "errors_Is (PathError op path err) target =
     (PathError op path err = target \<or> errors_Is err target)"
| "errors_Is err target = (err = target)"

text \<open>
  The Migration Record. \<open>Body\<close> is \<open>None\<close> for a nil body. \<open>BufferedBody\<close> is the
  pipe that \<open>Buffer()\<close> fills with the bytes of \<open>Body\<close>; it is modelled by its content.
  \<open>UpKindMigration\<close> has Go's zero value \<open>False\<close> unless a pipeline sets it.
\<close>

record Migration =
  Version :: go_uint
  TargetVersion :: int
  Body :: "body option"
  BufferedBody :: body
  UpKindMigration :: bool

section \<open>The driver contracts\<close>

text \<open>
  A driver acts on a backend state \<open>'s\<close>. An operation returning \<open>error\<close> returns
  \<open>None\<close> for nil. The capability test
  \<open>ed, isExtended := m.databaseDrv.(database.ExtendedDriver)\<close> is the field
  \<open>extended\<close>: \<open>Some ed\<close> when the driver implements the extended interface.
\<close>

record 's ExtendedDriver =
  GetAllAppliedMigrations :: "'s \<Rightarrow> int list \<times> error option"
  IsMigrationApplied :: "go_uint \<Rightarrow> 's \<Rightarrow> bool \<times> error option"
  IsDatabaseDirty :: "'s \<Rightarrow> int \<times> bool \<times> error option"
  AddDirtyMigration :: "go_uint \<Rightarrow> 's \<Rightarrow> error option \<times> 's"
  UpdateMigrationDirtyFlag :: "go_uint \<Rightarrow> bool \<Rightarrow> 's \<Rightarrow> error option \<times> 's"
  RemoveMigration :: "go_uint \<Rightarrow> 's \<Rightarrow> error option \<times> 's"

record 's Driver =
  Run :: "body \<Rightarrow> 's \<Rightarrow> error option \<times> 's"
  SetVersion :: "int \<Rightarrow> bool \<Rightarrow> 's \<Rightarrow> error option \<times> 's"
  extended :: "'s ExtendedDriver option"

text \<open>
  The source driver: \<open>First\<close>, \<open>Next\<close> and \<open>Prev\<close> return a version or an error;
  the end of the sequence is an error for which \<open>errors.Is(err, os.ErrNotExist)\<close> holds.
\<close>

record SourceDriver =
  First :: "error + go_uint"
  Next :: "go_uint \<Rightarrow> error + go_uint"
  Prev :: "go_uint \<Rightarrow> error + go_uint"

text \<open>
  The orchestrator \<open>Migrate\<close>. Its methods that are not part of the files verified
  here are fields: \<open>lock\<close> and \<open>unlockErr\<close>, \<open>versionExists\<close>, the stop flag
  \<open>stop\<close> (the value of \<open>m.stop()\<close> at its \<open>k\<close>-th poll by a pipeline), and
  \<open>openBody\<close>, the content stream that \<open>newMigration\<close> binds to a record
  (\<open>Inr None\<close> when the source has no script for it).
\<close>

record 's Migrate =
  sourceDrv :: SourceDriver
  databaseDrv :: "'s Driver"
  lock :: "'s \<Rightarrow> error option \<times> 's"
  unlockErr :: "error option \<Rightarrow> 's \<Rightarrow> error option \<times> 's"
  versionExists :: "go_uint \<Rightarrow> error option"
  stop :: "nat \<Rightarrow> bool"
  openBody :: "go_uint \<Rightarrow> int \<Rightarrow> error + body option"

text \<open>
  Modelled from the spec: \<open>newMigration\<close> (migrate.go) builds the Migration Record of
  a version and a target version, bound to its content; the direction is not set.
\<close>

definition newMigration :: "('s, 'z) Migrate_scheme \<Rightarrow> go_uint \<Rightarrow> int \<Rightarrow> error + Migration" where
  "newMigration m version targetVersion =
     (case openBody m version targetVersion of
        Inl err \<Rightarrow> Inl err
      | Inr b \<Rightarrow> Inr \<lparr>Version = version, TargetVersion = targetVersion, Body = b,
                     BufferedBody = (case b of None \<Rightarrow> [] | Some c \<Rightarrow> c),
                     UpKindMigration = False\<rparr>)"

section \<open>The dirty-state executor\<close>

text \<open>\<open>if err := call; err != nil { return fmt.Errorf(msg, n, err) }\<close>\<close>

definition wrapErr :: "string \<Rightarrow> int \<Rightarrow> error option \<times> 's \<Rightarrow> error option \<times> 's" where
  "wrapErr msg n r = (case r of (None, s) \<Rightarrow> (None, s) | (Some err, s) \<Rightarrow> (Some (Errorf msg n err), s))"

text \<open>Sequencing: a non-nil error returns at once, with the state reached.\<close>

definition andThen :: "error option \<times> 's \<Rightarrow> ('s \<Rightarrow> error option \<times> 's) \<Rightarrow> error option \<times> 's" where
  "andThen r f = (case r of (Some err, s) \<Rightarrow> (Some err, s) | (None, s) \<Rightarrow> f s)"

definition markDirty :: "'s Driver \<Rightarrow> Migration \<Rightarrow> 's \<Rightarrow> error option \<times> 's" where
  "markDirty drv migr s =
     (case extended drv of
        Some ed \<Rightarrow>
          if UpKindMigration migr
          then wrapErr ''failed to add dirty migration for version %d: %w'' (uint (Version migr))
                 (AddDirtyMigration ed (Version migr) s)
          else wrapErr ''failed to set dirty flag for version %d: %w'' (uint (Version migr))
                 (UpdateMigrationDirtyFlag ed (Version migr) True s)
      | None \<Rightarrow>
          wrapErr ''failed to set dirty version %d: %w'' (TargetVersion migr)
            (SetVersion drv (TargetVersion migr) True s))"

definition runBody :: "'s Driver \<Rightarrow> Migration \<Rightarrow> 's \<Rightarrow> error option \<times> 's" where
  "runBody drv migr s =
     (case Body migr of
        Some b \<Rightarrow> wrapErr ''failed to run migration %d body: %w'' (uint (Version migr))
                   (Run drv (BufferedBody migr) s)
      | None \<Rightarrow> (None, s))"

definition markClean :: "'s Driver \<Rightarrow> Migration \<Rightarrow> 's \<Rightarrow> error option \<times> 's" where
  "markClean drv migr s =
     (case extended drv of
        Some ed \<Rightarrow>
          if UpKindMigration migr
          then wrapErr ''failed to clear dirty flag for version %d: %w'' (uint (Version migr))
                 (UpdateMigrationDirtyFlag ed (Version migr) False s)
          else wrapErr ''failed to remove migration for version %d: %w'' (uint (Version migr))
                 (RemoveMigration ed (Version migr) s)
      | None \<Rightarrow>
          wrapErr ''failed to set clean version %d: %w'' (TargetVersion migr)
            (SetVersion drv (TargetVersion migr) False s))"

text \<open>
  \<open>handleSingleMigration\<close>: the three blocks of the function body in order. The timing
  and logging at its end do not touch the backend and are left out.
\<close>

definition handleSingleMigration :: "'s Driver \<Rightarrow> Migration \<Rightarrow> 's \<Rightarrow> error option \<times> 's" where
  "handleSingleMigration drv migr s =
     andThen (andThen (markDirty drv migr s) (runBody drv migr)) (markClean drv migr)"

section \<open>Observing the calls an executor makes\<close>

text \<open>
  To state which driver operations a run performs, a driver is wrapped so that every
  state-changing call is appended to a log, with the error it returned and the backend
  state it left. The wrapped driver behaves as the driver it wraps.
\<close>

datatype driver_call =
    CallRun body
  | CallSetVersion int bool
  | CallAddDirtyMigration go_uint
  | CallUpdateMigrationDirtyFlag go_uint bool
  | CallRemoveMigration go_uint

type_synonym 's event = "driver_call \<times> error option \<times> 's"

definition logged :: "driver_call \<Rightarrow> ('s \<Rightarrow> error option \<times> 's) \<Rightarrow>
    's \<times> 's event list \<Rightarrow> error option \<times> 's \<times> 's event list" where
  "logged c f sl =
     (case sl of (s, log) \<Rightarrow> (case f s of (r, s') \<Rightarrow> (r, (s', log @ [(c, r, s')]))))"

definition traced_extended :: "'s ExtendedDriver \<Rightarrow> ('s \<times> 's event list) ExtendedDriver" where
  "traced_extended ed =
     \<lparr>GetAllAppliedMigrations = (\<lambda>sl. GetAllAppliedMigrations ed (fst sl)),
      IsMigrationApplied = (\<lambda>v sl. IsMigrationApplied ed v (fst sl)),
      IsDatabaseDirty = (\<lambda>sl. IsDatabaseDirty ed (fst sl)),
      AddDirtyMigration = (\<lambda>v. logged (CallAddDirtyMigration v) (AddDirtyMigration ed v)),
      UpdateMigrationDirtyFlag =
        (\<lambda>v d. logged (CallUpdateMigrationDirtyFlag v d) (UpdateMigrationDirtyFlag ed v d)),
      RemoveMigration = (\<lambda>v. logged (CallRemoveMigration v) (RemoveMigration ed v))\<rparr>"

definition traced_driver :: "'s Driver \<Rightarrow> ('s \<times> 's event list) Driver" where
  "traced_driver drv =
     \<lparr>Run = (\<lambda>b. logged (CallRun b) (Run drv b)),
      SetVersion = (\<lambda>v d. logged (CallSetVersion v d) (SetVersion drv v d)),
      extended = map_option traced_extended (extended drv)\<rparr>"

definition unlogged :: "('s \<Rightarrow> error option \<times> 's) \<Rightarrow>
    's \<times> 's event list \<Rightarrow> error option \<times> 's \<times> 's event list" where
  "unlogged f sl = (case sl of (s, log) \<Rightarrow> (case f s of (r, s') \<Rightarrow> (r, (s', log))))"

definition traced :: "'s Migrate \<Rightarrow> ('s \<times> 's event list) Migrate" where
  "traced m =
     \<lparr>sourceDrv = sourceDrv m,
      databaseDrv = traced_driver (databaseDrv m),
      lock = unlogged (lock m),
      unlockErr = (\<lambda>e. unlogged (unlockErr m e)),
      versionExists = versionExists m,
      stop = stop m,
      openBody = openBody m\<rparr>"

text \<open>
  The three steps in the words of the specification: the marker call that opens a
  record, the run of its content when it has one, the marker call that closes it.
\<close>

definition dirty_step :: "bool \<Rightarrow> Migration \<Rightarrow> driver_call" where
  "dirty_step isExtended migr =
     (if isExtended
      then (if UpKindMigration migr then CallAddDirtyMigration (Version migr)
            else CallUpdateMigrationDirtyFlag (Version migr) True)
      else CallSetVersion (TargetVersion migr) True)"

definition run_step :: "Migration \<Rightarrow> driver_call list" where
  "run_step migr = (case Body migr of None \<Rightarrow> [] | Some b \<Rightarrow> [CallRun (BufferedBody migr)])"

definition clean_step :: "bool \<Rightarrow> Migration \<Rightarrow> driver_call" where
  "clean_step isExtended migr =
     (if isExtended
      then (if UpKindMigration migr then CallUpdateMigrationDirtyFlag (Version migr) False
            else CallRemoveMigration (Version migr))
      else CallSetVersion (TargetVersion migr) False)"

definition executor_steps :: "bool \<Rightarrow> Migration \<Rightarrow> driver_call list" where
  "executor_steps isExtended migr =
     [dirty_step isExtended migr] @ run_step migr @ [clean_step isExtended migr]"

definition isExtended :: "'s Driver \<Rightarrow> bool" where
  "isExtended drv = (extended drv \<noteq> None)"

section \<open>The queueing pipelines\<close>

text \<open>
  The channel \<open>ret\<close> is modelled by the list of the values sent on it, in order, up to
  its close (\<open>defer close(ret)\<close>): \<open>Inl\<close> an error or sentinel, \<open>Inr\<close> a record.
  The goroutine that calls \<open>Buffer()\<close> on a record sends nothing on the channel.
\<close>

type_synonym chan = "(error + Migration) list"

text \<open>\<open>if appliedCount == 0 { ret <- ErrNoChange }\<close>\<close>

definition noChangeIfNone :: "int \<Rightarrow> chan \<Rightarrow> chan" where
  "noChangeIfNone appliedCount ret = (if appliedCount = 0 then ret @ [Inl ErrNoChange] else ret)"

text \<open>
  The loop of \<open>queueUpMigrations\<close>. It runs as long as the source keeps answering
  \<open>Next\<close> with a version, so it is a partial function: \<open>None\<close> when it never returns.
  \<open>polls\<close> counts the calls of \<open>m.stop()\<close> made so far.
\<close>

partial_function (option) queueUpMigrations_loop ::
  "('s, 'z) Migrate_scheme \<Rightarrow> int set \<Rightarrow> int \<Rightarrow> go_uint \<Rightarrow> int \<Rightarrow> nat \<Rightarrow> chan \<Rightarrow> chan option" where
  "queueUpMigrations_loop m appliedSet limit targetVersion appliedCount polls ret =
     (if limit = -1 \<or> appliedCount < limit then
        if stop m polls then Some (noChangeIfNone appliedCount ret)
        else if sint targetVersion \<in> appliedSet then
          (case Next (sourceDrv m) targetVersion of
             Inl err \<Rightarrow>
               if errors_Is err ErrNotExist then Some (noChangeIfNone appliedCount ret)
               else Some (ret @ [Inl err])
           | Inr next \<Rightarrow>
               queueUpMigrations_loop m appliedSet limit next appliedCount (Suc polls) ret)
        else
          (case newMigration m targetVersion (sint targetVersion) of
             Inl err \<Rightarrow> Some (ret @ [Inl err])
           | Inr migr \<Rightarrow>
               (case Next (sourceDrv m) targetVersion of
                  Inl err \<Rightarrow>
                    if errors_Is err ErrNotExist
                    then Some (noChangeIfNone (appliedCount + 1)
                                 (ret @ [Inr (migr\<lparr>UpKindMigration := True\<rparr>)]))
                    else Some (ret @ [Inr (migr\<lparr>UpKindMigration := True\<rparr>)] @ [Inl err])
                | Inr next \<Rightarrow>
                    queueUpMigrations_loop m appliedSet limit next (appliedCount + 1) (Suc polls)
                      (ret @ [Inr (migr\<lparr>UpKindMigration := True\<rparr>)])))
      else Some (noChangeIfNone appliedCount ret))"

definition queueUpMigrations :: "('s, 'z) Migrate_scheme \<Rightarrow> int list \<Rightarrow> int \<Rightarrow> chan option" where
  "queueUpMigrations m appliedMigrs limit =
     (let appliedSet = set appliedMigrs in
      case First (sourceDrv m) of
        Inl err \<Rightarrow> if errors_Is err ErrNotExist then Some [Inl ErrNoChange] else Some [Inl err]
      | Inr targetVersion \<Rightarrow> queueUpMigrations_loop m appliedSet limit targetVersion 0 0 [])"

definition queueUpSingleMigration :: "('s, 'z) Migrate_scheme \<Rightarrow> go_uint \<Rightarrow> chan" where
  "queueUpSingleMigration m version =
     (case versionExists m version of
        Some err \<Rightarrow> [Inl err]
      | None \<Rightarrow>
          if stop m 0 then []
          else (case newMigration m version (sint version) of
                  Inl err \<Rightarrow> [Inl err]
                | Inr migr \<Rightarrow> [Inr (migr\<lparr>UpKindMigration := True\<rparr>)]))"

text \<open>
  The loop of \<open>queueDownMigrations\<close>, over the index \<open>i\<close>; the stop flag is polled
  once at the top of every iteration, so the \<open>i\<close>-th iteration makes the \<open>i\<close>-th poll.
\<close>

function queueDownMigrations_loop ::
  "('s, 'z) Migrate_scheme \<Rightarrow> int list \<Rightarrow> int \<Rightarrow> nat \<Rightarrow> int \<Rightarrow> chan \<Rightarrow> chan" where
  "queueDownMigrations_loop m appliedMigrs limit i appliedCount ret =
     (if i < length appliedMigrs then
        if stop m i then noChangeIfNone appliedCount ret
        else if limit \<noteq> -1 \<and> appliedCount \<ge> limit then noChangeIfNone appliedCount ret
        else
          (let version = (word_of_int (appliedMigrs ! i) :: go_uint);
               targetVersion = (if i = length appliedMigrs - 1 then -1 else appliedMigrs ! (i + 1))
           in case newMigration m version targetVersion of
                Inl err \<Rightarrow> ret @ [Inl err]
              | Inr migr \<Rightarrow>
                  queueDownMigrations_loop m appliedMigrs limit (i + 1) (appliedCount + 1)
                    (ret @ [Inr migr]))
      else noChangeIfNone appliedCount ret)"
  by pat_completeness auto
termination
  by (relation "measure (\<lambda>(m, appliedMigrs, limit, i, appliedCount, ret). length appliedMigrs - i)") auto

declare queueDownMigrations_loop.simps [simp del]

definition queueDownMigrations :: "('s, 'z) Migrate_scheme \<Rightarrow> int list \<Rightarrow> int \<Rightarrow> chan" where
  "queueDownMigrations m appliedMigrs limit =
     (if length appliedMigrs = 0 \<or> limit = 0 then [Inl ErrNoChange]
      else queueDownMigrations_loop m appliedMigrs limit 0 0 [])"

definition queueDownSingleMigration :: "('s, 'z) Migrate_scheme \<Rightarrow> go_uint \<Rightarrow> chan" where
  "queueDownSingleMigration m version =
     (case versionExists m version of
        Some err \<Rightarrow> [Inl err]
      | None \<Rightarrow>
          if stop m 0 then []
          else (case (case Prev (sourceDrv m) version of
                        Inl err \<Rightarrow> if \<not> errors_Is err ErrNotExist then Inl err else Inr (-1)
                      | Inr prev \<Rightarrow> Inr (sint prev)) of
                  Inl err \<Rightarrow> [Inl err]
                | Inr targetVersion \<Rightarrow>
                    (case newMigration m version targetVersion of
                       Inl err \<Rightarrow> [Inl err]
                     | Inr migr \<Rightarrow> [Inr migr])))"

section \<open>The single-version operations\<close>

text \<open>
  Modelled from the spec: the consumer loop \<open>runMigrations\<close> (migrate.go) reads the
  channel until it is closed; a value that is an error or a sentinel is surfaced at
  once, a record is passed to the dirty-state executor, and the loop does not continue
  past the first executor failure.
\<close>

fun runMigrations :: "'s Migrate \<Rightarrow> chan \<Rightarrow> 's \<Rightarrow> error option \<times> 's" where
  "runMigrations m [] s = (None, s)"
| "runMigrations m (Inl err # ret) s = (Some err, s)"
| "runMigrations m (Inr migr # ret) s =
     andThen (handleSingleMigration (databaseDrv m) migr s) (runMigrations m ret)"

definition DoMigration :: "'s Migrate \<Rightarrow> go_uint \<Rightarrow> 's \<Rightarrow> error option \<times> 's" where
  "DoMigration m version s =
     (case lock m s of
        (Some err, s1) \<Rightarrow> (Some err, s1)
      | (None, s1) \<Rightarrow>
          (case extended (databaseDrv m) of
             Some ed \<Rightarrow>
               (case IsMigrationApplied ed version s1 of
                  (isApplied, Some err) \<Rightarrow> unlockErr m (Some err) s1
                | (isApplied, None) \<Rightarrow>
                    if isApplied then unlockErr m (Some ErrNoChange) s1
                    else (case runMigrations m (queueUpSingleMigration m version) s1 of
                            (r, s2) \<Rightarrow> unlockErr m r s2))
           | None \<Rightarrow> unlockErr m (Some (ErrorString ''driver type is not right'')) s1))"

definition UndoMigration :: "'s Migrate \<Rightarrow> go_uint \<Rightarrow> 's \<Rightarrow> error option \<times> 's" where
  "UndoMigration m version s =
     (case lock m s of
        (Some err, s1) \<Rightarrow> (Some err, s1)
      | (None, s1) \<Rightarrow>
          (case extended (databaseDrv m) of
             Some ed \<Rightarrow>
               (case IsMigrationApplied ed version s1 of
                  (isApplied, Some err) \<Rightarrow> unlockErr m (Some err) s1
                | (isApplied, None) \<Rightarrow>
                    if \<not> isApplied then unlockErr m (Some ErrNoChange) s1
                    else (case runMigrations m (queueDownSingleMigration m version) s1 of
                            (r, s2) \<Rightarrow> unlockErr m r s2))
           | None \<Rightarrow> unlockErr m (Some (ErrorString ''driver type is not right'')) s1))"

section \<open>The Postgres extended driver\<close>

text \<open>
  The migrations table holds one row per applied version (spec, persisted state
  layout). \<open>applied_at\<close> is a wall-clock time that no operation reads; it is left out.
  \<open>migrationsTable = None\<close> is a database in which the table does not exist.
  \<open>faults\<close> is what the connection does to the coming calls: its head is the fault that
  meets the current call; a state-changing call consumes it.
\<close>

record migration_row =
  migration_timestamp :: int
  dirty :: bool

datatype fault =
    BeginTxFails error
  | ExecFails error "error option"
  | CommitFails error
  | QueryFails error

record Postgres =
  migrationsTable :: "migration_row list option"
  faults :: "fault option list"

definition nextFault :: "('z) Postgres_scheme \<Rightarrow> fault option" where
  "nextFault p = (case faults p of [] \<Rightarrow> None | f # fs \<Rightarrow> f)"

definition advance :: "Postgres \<Rightarrow> Postgres" where
  "advance p = p\<lparr>faults := tl (faults p)\<rparr>"

text \<open>
  Modelled from the spec: the migrations table, which \<open>ensureVersionTable\<close>
  (postgres.go) creates. It has one row per applied version, so a second row for a
  timestamp is refused, and a row inserted with its timestamp alone is dirty (the name
  and comment of \<open>AddDirtyMigration\<close>). A statement on a missing table is
  \<open>undefined_table\<close>.
\<close>

definition sql_insert :: "int \<Rightarrow> migration_row list option \<Rightarrow> error + migration_row list" where
  "sql_insert ts tbl =
     (case tbl of
        None \<Rightarrow> Inl (PqError ''undefined_table'')
      | Some rows \<Rightarrow>
          if ts \<in> set (map migration_timestamp rows) then Inl (PqError ''unique_violation'')
          else Inr (rows @ [\<lparr>migration_timestamp = ts, dirty = True\<rparr>]))"

definition sql_update_dirty :: "bool \<Rightarrow> int \<Rightarrow> migration_row list option \<Rightarrow> error + migration_row list" where
  "sql_update_dirty d ts tbl =
     (case tbl of
        None \<Rightarrow> Inl (PqError ''undefined_table'')
      | Some rows \<Rightarrow>
          Inr (map (\<lambda>r. if migration_timestamp r = ts then r\<lparr>dirty := d\<rparr> else r) rows))"

definition sql_delete :: "int \<Rightarrow> migration_row list option \<Rightarrow> error + migration_row list" where
  "sql_delete ts tbl =
     (case tbl of
        None \<Rightarrow> Inl (PqError ''undefined_table'')
      | Some rows \<Rightarrow> Inr (filter (\<lambda>r. migration_timestamp r \<noteq> ts) rows))"

text \<open>
  The body shared by \<open>AddDirtyMigration\<close>, \<open>UpdateMigrationDirtyFlag\<close> and
  \<open>RemoveMigration\<close>: \<open>BeginTx\<close>, \<open>tx.Exec\<close> with a rollback when it fails (a rollback
  error is appended to the exec error), \<open>tx.Commit\<close>. Every failure leaves the table
  as it was. The \<open>version\<close> argument is a Go \<open>uint\<close>, which \<open>database/sql\<close> binds to
  the statement as \<open>int64(version)\<close>: the parameter is \<open>sint version\<close>, negative from
  \<open>2^63\<close> on.
\<close>

definition inTransaction ::
  "string \<Rightarrow> string \<Rightarrow> string \<Rightarrow> (migration_row list option \<Rightarrow> error + migration_row list) \<Rightarrow>
   Postgres \<Rightarrow> error option \<times> Postgres" where
  "inTransaction beginMsg query commitMsg stmt p =
     (case nextFault p of
        Some (BeginTxFails err) \<Rightarrow> (Some (DatabaseError err beginMsg), advance p)
      | Some (ExecFails execErr None) \<Rightarrow> (Some (DatabaseError execErr query), advance p)
      | Some (ExecFails execErr (Some rbErr)) \<Rightarrow>
          (Some (DatabaseError (MultiError execErr rbErr) query), advance p)
      | f \<Rightarrow>
          (case stmt (migrationsTable p) of
             Inl execErr \<Rightarrow> (Some (DatabaseError execErr query), advance p)
           | Inr rows \<Rightarrow>
               (case f of
                  Some (CommitFails err) \<Rightarrow> (Some (DatabaseError err commitMsg), advance p)
                | _ \<Rightarrow> (None, advance (p\<lparr>migrationsTable := Some rows\<rparr>)))))"

definition PostgresExtras_AddDirtyMigration :: "go_uint \<Rightarrow> Postgres \<Rightarrow> error option \<times> Postgres" where
  "PostgresExtras_AddDirtyMigration version p =
     inTransaction ''failed to start transaction''
       ''INSERT INTO %s.%s (migration_timestamp) VALUES ($1)''
       ''failed to commit transaction'' (sql_insert (sint version)) p"

definition PostgresExtras_UpdateMigrationDirtyFlag ::
  "go_uint \<Rightarrow> bool \<Rightarrow> Postgres \<Rightarrow> error option \<times> Postgres" where
  "PostgresExtras_UpdateMigrationDirtyFlag version d p =
     inTransaction ''failed to start transaction''
       ''UPDATE %s.%s SET dirty = $1, applied_at = NOW() WHERE migration_timestamp = $2''
       ''failed to commit transaction'' (sql_update_dirty d (sint version)) p"

definition PostgresExtras_RemoveMigration :: "go_uint \<Rightarrow> Postgres \<Rightarrow> error option \<times> Postgres" where
  "PostgresExtras_RemoveMigration version p =
     inTransaction ''transaction start failed''
       ''DELETE FROM %s.%s WHERE migration_timestamp = $1;''
       ''transaction commit failed'' (sql_delete (sint version)) p"

text \<open>
  The queries. \<open>ORDER BY migration_timestamp DESC\<close> sorts the timestamps in
  descending order. A failure of \<open>QueryContext\<close>, of \<open>rows.Scan\<close> or of \<open>rows.Err\<close>
  is the one fault \<open>QueryFails\<close>: the three return the same \<open>database.Error\<close>.
\<close>

definition query_result :: "Postgres \<Rightarrow> (migration_row list \<Rightarrow> error + 'a) \<Rightarrow> error + 'a" where
  "query_result p sel =
     (case nextFault p of
        Some (QueryFails err) \<Rightarrow> Inl err
      | _ \<Rightarrow> (case migrationsTable p of
                None \<Rightarrow> Inl (PqError ''undefined_table'')
              | Some rows \<Rightarrow> sel rows))"

definition PostgresExtras_GetAllAppliedMigrations :: "Postgres \<Rightarrow> int list \<times> error option" where
  "PostgresExtras_GetAllAppliedMigrations p =
     (case query_result p (\<lambda>rows. Inr (rev (sort (map migration_timestamp rows)))) of
        Inl err \<Rightarrow>
          ([], Some (DatabaseError err
             ''SELECT migration_timestamp FROM %s.%s ORDER BY migration_timestamp DESC''))
      | Inr appliedMigrations \<Rightarrow> (appliedMigrations, None))"

definition PostgresExtras_IsMigrationApplied :: "go_uint \<Rightarrow> Postgres \<Rightarrow> bool \<times> error option" where
  "PostgresExtras_IsMigrationApplied version p =
     (case query_result p
             (\<lambda>rows. Inr (sint version \<in> set (map migration_timestamp rows))) of
        Inl err \<Rightarrow>
          if err = ErrNoRows then (False, None)
          else (case err of
                  PqError name \<Rightarrow>
                    if name = ''undefined_table'' then (False, None)
                    else (False, Some (DatabaseError err
                            ''SELECT COUNT(*) > 0 FROM %s.%s WHERE migration_timestamp = $1;''))
                | _ \<Rightarrow> (False, Some (DatabaseError err
                            ''SELECT COUNT(*) > 0 FROM %s.%s WHERE migration_timestamp = $1;'')))
      | Inr isApplied \<Rightarrow> (isApplied, None))"

definition Postgres_IsDatabaseDirty :: "Postgres \<Rightarrow> int \<times> bool \<times> error option" where
  "Postgres_IsDatabaseDirty p =
     (case query_result p
             (\<lambda>rows. case filter dirty rows of
                        [] \<Rightarrow> Inl ErrNoRows
                      | r # rs \<Rightarrow> Inr (migration_timestamp r)) of
        Inl err \<Rightarrow>
          if (case err of PqError name \<Rightarrow> name = ''undefined_table'' | _ \<Rightarrow> False)
          then (0, False, None)
          else if errors_Is err ErrNoRows then (0, False, None)
          else (0, False, Some (DatabaseError err
                  ''SELECT migration_timestamp FROM %s.%s WHERE dirty = true LIMIT 1''))
      | Inr migr \<Rightarrow> (migr, True, None))"

text \<open>
  The driver value. \<open>Run\<close> and \<open>SetVersion\<close> of the Postgres driver are in postgres.go
  and are taken as parameters.
\<close>

definition PostgresExtras ::
  "(body \<Rightarrow> Postgres \<Rightarrow> error option \<times> Postgres) \<Rightarrow>
   (int \<Rightarrow> bool \<Rightarrow> Postgres \<Rightarrow> error option \<times> Postgres) \<Rightarrow> Postgres Driver" where
  "PostgresExtras run setVersion =
     \<lparr>Run = run, SetVersion = setVersion,
      extended = Some
        \<lparr>GetAllAppliedMigrations = PostgresExtras_GetAllAppliedMigrations,
         IsMigrationApplied = PostgresExtras_IsMigrationApplied,
         IsDatabaseDirty = Postgres_IsDatabaseDirty,
         AddDirtyMigration = PostgresExtras_AddDirtyMigration,
         UpdateMigrationDirtyFlag = PostgresExtras_UpdateMigrationDirtyFlag,
         RemoveMigration = PostgresExtras_RemoveMigration\<rparr>\<rparr>"

section \<open>Notions used to state the properties\<close>

text \<open>
  The version an error of the executor is wrapped with: the version argument of the
  failing driver call, and the version of the record when the failing call is \<open>Run\<close>.
\<close>

definition offending_version :: "Migration \<Rightarrow> driver_call \<Rightarrow> int" where
  "offending_version migr c =
     (case c of
        CallRun b \<Rightarrow> uint (Version migr)
      | CallSetVersion v d \<Rightarrow> v
      | CallAddDirtyMigration v \<Rightarrow> uint v
      | CallUpdateMigrationDirtyFlag v d \<Rightarrow> uint v
      | CallRemoveMigration v \<Rightarrow> uint v)"

text \<open>
  The source sequence \<open>vs\<close> of a source driver: \<open>First()\<close> is its head, \<open>Next\<close> of
  each version is the following one, and \<open>Next\<close> of the last reports the end of the
  sequence. The empty sequence is a source whose \<open>First()\<close> reports it.
\<close>

fun source_walk :: "SourceDriver \<Rightarrow> go_uint \<Rightarrow> go_uint list \<Rightarrow> bool" where
  "source_walk src v [] = (case Next src v of Inl err \<Rightarrow> errors_Is err ErrNotExist | Inr n \<Rightarrow> False)"
| "source_walk src v (w # ws) = (Next src v = Inr w \<and> source_walk src w ws)"

definition source_sequence :: "SourceDriver \<Rightarrow> go_uint list \<Rightarrow> bool" where
  "source_sequence src vs =
     (case vs of
        [] \<Rightarrow> (case First src of Inl err \<Rightarrow> errors_Is err ErrNotExist | Inr v \<Rightarrow> False)
      | v # ws \<Rightarrow> First src = Inr v \<and> source_walk src v ws)"

text \<open>The record of a version and target version whose content opens without error.\<close>

definition migrationRecord :: "('s, 'z) Migrate_scheme \<Rightarrow> bool \<Rightarrow> go_uint \<Rightarrow> int \<Rightarrow> Migration" where
  "migrationRecord m up v t =
     (let b = (case openBody m v t of Inl err \<Rightarrow> None | Inr b \<Rightarrow> b)
      in \<lparr>Version = v, TargetVersion = t, Body = b,
          BufferedBody = (case b of None \<Rightarrow> [] | Some c \<Rightarrow> c), UpKindMigration = up\<rparr>)"

definition opens :: "('s, 'z) Migrate_scheme \<Rightarrow> go_uint \<Rightarrow> int \<Rightarrow> bool" where
  "opens m v t = (case openBody m v t of Inl err \<Rightarrow> False | Inr b \<Rightarrow> True)"

text \<open>
  The record the bulk-Up pipeline makes of a source version, and the record the
  bulk-Down pipeline makes of an applied version paired with its target version.
\<close>

definition upRecord :: "('s, 'z) Migrate_scheme \<Rightarrow> go_uint \<Rightarrow> Migration" where
  "upRecord m v = migrationRecord m True v (sint v)"

definition downRecord :: "('s, 'z) Migrate_scheme \<Rightarrow> int \<times> int \<Rightarrow> Migration" where
  "downRecord m vt = migrationRecord m False (word_of_int (fst vt)) (snd vt)"

text \<open>A limit of \<open>-1\<close> is no limit; any other limit keeps that many records.\<close>

definition limited :: "int \<Rightarrow> 'a list \<Rightarrow> 'a list" where
  "limited limit xs = (if limit = -1 then xs else take (nat limit) xs)"

text \<open>What a limit still allows once \<open>c\<close> records are enqueued.\<close>

definition allowance :: "int \<Rightarrow> int \<Rightarrow> 'a list \<Rightarrow> 'a list" where
  "allowance limit c xs = (if limit = -1 then xs else take (nat (limit - c)) xs)"

text \<open>The polls of the stop flag that answer "go on": the first \<open>k\<close> of them.\<close>

definition stops_at :: "(nat \<Rightarrow> bool) \<Rightarrow> nat \<Rightarrow> nat \<Rightarrow> bool" where
  "stops_at stp n k = (k \<le> n \<and> \<not> (\<exists>i < k. stp i) \<and> (k = n \<or> stp k))"

text \<open>Each applied version with the next older one, \<open>-1\<close> after the oldest.\<close>

definition withNextOlder :: "int list \<Rightarrow> (int \<times> int) list" where
  "withNextOlder appliedMigrs = zip appliedMigrs (tl appliedMigrs @ [-1])"

definition records :: "chan \<Rightarrow> Migration list" where
  "records ret = [migr. Inr migr \<leftarrow> ret]"

text \<open>Dirty markers of the migrations table.\<close>

definition dirtyRows :: "Postgres \<Rightarrow> migration_row list" where
  "dirtyRows p = (case migrationsTable p of None \<Rightarrow> [] | Some rows \<Rightarrow> filter dirty rows)"

definition atMostOneDirty :: "Postgres \<Rightarrow> bool" where
  "atMostOneDirty p = (length (dirtyRows p) \<le> 1)"

definition oneRowPerVersion :: "Postgres \<Rightarrow> bool" where
  "oneRowPerVersion p =
     (case migrationsTable p of None \<Rightarrow> True | Some rows \<Rightarrow> distinct (map migration_timestamp rows))"

text \<open>One row per version, and no row is dirty but possibly the row of version \<open>v\<close>.\<close>

definition onlyDirty :: "int \<Rightarrow> Postgres \<Rightarrow> bool" where
  "onlyDirty v p =
     (oneRowPerVersion p \<and> list_all (\<lambda>r. migration_timestamp r = v) (dirtyRows p))"

definition keepsTable :: "(body \<Rightarrow> Postgres \<Rightarrow> error option \<times> Postgres) \<Rightarrow> bool" where
  "keepsTable run = (\<forall>b p. migrationsTable (snd (run b p)) = migrationsTable p)"

section \<open>Concrete sources and servers\<close>

text \<open>
  Modelled from the spec: a source driver over an ordered enumeration of versions,
  with first, next and previous navigation and \<open>NotFound\<close> at the boundaries.
\<close>

definition listSource :: "go_uint list \<Rightarrow> SourceDriver" where
  "listSource vs =
     \<lparr>First = (case vs of [] \<Rightarrow> Inl ErrNotExist | v # ws \<Rightarrow> Inr v),
      Next = (\<lambda>v. case dropWhile (\<lambda>x. x \<noteq> v) vs of
                    x # n # ws \<Rightarrow> Inr n
                  | _ \<Rightarrow> Inl ErrNotExist),
      Prev = (\<lambda>v. if v \<in> set vs
                  then (case rev (takeWhile (\<lambda>x. x \<noteq> v) vs) of
                          [] \<Rightarrow> Inl ErrNotExist
                        | x # xs \<Rightarrow> Inr x)
                  else Inl ErrNotExist)\<rparr>"

text \<open>
  Modelled from the spec: \<open>Run\<close>, the "execute raw script" operation, on a server that
  rejects the scripts in \<open>bad\<close>; a script does not write to the migrations table.
\<close>

definition scriptRun :: "body list \<Rightarrow> body \<Rightarrow> Postgres \<Rightarrow> error option \<times> Postgres" where
  "scriptRun bad b p =
     (if b \<in> set bad then (Some (DatabaseError (PqError ''syntax_error'') b), advance p)
      else (None, advance p))"

definition noSetVersion :: "int \<Rightarrow> bool \<Rightarrow> Postgres \<Rightarrow> error option \<times> Postgres" where
  "noSetVersion v d p = (Some (ErrorString ''not used by an extended driver''), p)"

text \<open>
  An orchestrator over the Postgres driver: the source holds the versions \<open>vs\<close>, every
  version has the up script \<open>up\<close> and the down script \<open>down\<close>, locking succeeds, and the
  stop flag answers \<open>stp\<close>.
\<close>

definition pgMigrate :: "go_uint list \<Rightarrow> (go_uint \<Rightarrow> body) \<Rightarrow> body list \<Rightarrow> (nat \<Rightarrow> bool) \<Rightarrow> Postgres Migrate" where
  "pgMigrate vs script bad stp =
     \<lparr>sourceDrv = listSource vs,
      databaseDrv = PostgresExtras (scriptRun bad) noSetVersion,
      lock = (\<lambda>p. (None, p)),
      unlockErr = (\<lambda>e p. (e, p)),
      versionExists = (\<lambda>v. if v \<in> set vs then None
                           else Some (Errorf ''no migration found for version %d: %w'' (uint v) ErrNotExist)),
      stop = stp,
      openBody = (\<lambda>v t. if v \<in> set vs then Inr (Some (script v)) else Inr None)\<rparr>"

text \<open>
  Modelled from the spec: a Basic backend, a single \<open>(version, dirty)\<close> pointer that
  \<open>SetVersion\<close> overwrites.
\<close>

definition basicDriver :: "(body \<Rightarrow> int \<times> bool \<Rightarrow> error option \<times> (int \<times> bool)) \<Rightarrow> (int \<times> bool) Driver" where
  "basicDriver run =
     \<lparr>Run = run, SetVersion = (\<lambda>v d p. (None, (v, d))), extended = None\<rparr>"

text \<open>Sample values: an empty history table, an up record and a down record.\<close>

definition emptyHistory :: Postgres where
  "emptyHistory = \<lparr>migrationsTable = Some [], faults = []\<rparr>"

definition ordersUp :: Migration where
  "ordersUp = \<lparr>Version = 130, TargetVersion = 130, Body = Some ''CREATE TABLE orders ();'',
     BufferedBody = ''CREATE TABLE orders ();'', UpKindMigration = True\<rparr>"

definition alwaysStop :: "nat \<Rightarrow> bool" where
  "alwaysStop k = True"

definition neverStop :: "nat \<Rightarrow> bool" where
  "neverStop k = False"

definition upScript :: "go_uint \<Rightarrow> body" where
  "upScript v = ''ALTER TABLE orders ADD COLUMN c INT;''"

definition sampleMigrate :: "(nat \<Rightarrow> bool) \<Rightarrow> Postgres Migrate" where
  "sampleMigrate stp = pgMigrate [130, 135, 140] upScript [] stp"

definition brokenMigrate :: "Postgres Migrate" where
  "brokenMigrate = pgMigrate [130, 135, 140] upScript [upScript 130] neverStop"

definition failingPrev :: "Postgres Migrate" where
  "failingPrev = (sampleMigrate neverStop)
     \<lparr>sourceDrv := (listSource [130, 135, 140])\<lparr>Prev := (\<lambda>v. Inl (ErrorString ''read timeout''))\<rparr>\<rparr>"

definition wrappedPrev :: "Postgres Migrate" where
  "wrappedPrev = (sampleMigrate neverStop)
     \<lparr>sourceDrv := (listSource [130, 135, 140])
        \<lparr>Prev := (\<lambda>v. Inl (MultiError ErrNotExist (ErrorString ''close failed'')))\<rparr>\<rparr>"

definition idleRun :: "body \<Rightarrow> int \<times> bool \<Rightarrow> error option \<times> (int \<times> bool)" where
  "idleRun b p = (None, p)"

definition basicMigrate :: "(int \<times> bool) Migrate" where
  "basicMigrate =
     \<lparr>sourceDrv = listSource [130, 135, 140],
      databaseDrv = basicDriver idleRun,
      lock = (\<lambda>p. (None, p)),
      unlockErr = (\<lambda>e p. (e, p)),
      versionExists = (\<lambda>v. None),
      stop = neverStop,
      openBody = (\<lambda>v t. Inr (Some (upScript v)))\<rparr>"

definition appliedHistory :: Postgres where
  "appliedHistory =
     \<lparr>migrationsTable = Some [\<lparr>migration_timestamp = 135, dirty = False\<rparr>], faults = []\<rparr>"

definition threeApplied :: Postgres where
  "threeApplied =
     \<lparr>migrationsTable = Some [\<lparr>migration_timestamp = 130, dirty = False\<rparr>,
                              \<lparr>migration_timestamp = 140, dirty = False\<rparr>,
                              \<lparr>migration_timestamp = 135, dirty = False\<rparr>],
      faults = []\<rparr>"

definition noTable :: Postgres where
  "noTable = \<lparr>migrationsTable = None, faults = []\<rparr>"

definition noRowsReply :: Postgres where
  "noRowsReply = \<lparr>migrationsTable = Some [], faults = [Some (QueryFails ErrNoRows)]\<rparr>"

definition pgDriver :: "body list \<Rightarrow> Postgres Driver" where
  "pgDriver bad = PostgresExtras (scriptRun bad) noSetVersion"

section \<open>Properties of the executor\<close>

lemmas run_defs = handleSingleMigration_def andThen_def markDirty_def runBody_def markClean_def
  traced_driver_def traced_extended_def logged_def wrapErr_def pgDriver_def PostgresExtras_def
  ordersUp_def emptyHistory_def PostgresExtras_AddDirtyMigration_def
  PostgresExtras_UpdateMigrationDirtyFlag_def PostgresExtras_RemoveMigration_def sql_delete_def
  inTransaction_def nextFault_def advance_def sql_insert_def sql_update_dirty_def scriptRun_def

lemma markDirty_traced:
  assumes "markDirty (traced_driver drv) migr (s, log) = (r, (s', log'))"
  shows "\<exists>cause. log' = log @ [(dirty_step (isExtended drv) migr, cause, s')] \<and>
     (case cause of None \<Rightarrow> r = None
      | Some c \<Rightarrow> \<exists>fmt. r = Some (Errorf fmt (offending_version migr (dirty_step (isExtended drv) migr)) c))"
  using assms
  by (auto simp: markDirty_def traced_driver_def traced_extended_def logged_def wrapErr_def
      dirty_step_def isExtended_def offending_version_def
      split: option.splits prod.splits if_splits)

lemma markClean_traced:
  assumes "markClean (traced_driver drv) migr (s, log) = (r, (s', log'))"
  shows "\<exists>cause. log' = log @ [(clean_step (isExtended drv) migr, cause, s')] \<and>
     (case cause of None \<Rightarrow> r = None
      | Some c \<Rightarrow> \<exists>fmt. r = Some (Errorf fmt (offending_version migr (clean_step (isExtended drv) migr)) c))"
  using assms
  by (auto simp: markClean_def traced_driver_def traced_extended_def logged_def wrapErr_def
      clean_step_def isExtended_def offending_version_def
      split: option.splits prod.splits if_splits)

lemma runBody_traced:
  assumes "runBody (traced_driver drv) migr (s, log) = (r, (s', log'))"
  shows "(Body migr = None \<and> r = None \<and> s' = s \<and> log' = log) \<or>
     (Body migr \<noteq> None \<and> (\<exists>cause. log' = log @ [(CallRun (BufferedBody migr), cause, s')] \<and>
     (case cause of None \<Rightarrow> r = None
      | Some c \<Rightarrow> \<exists>fmt. r = Some (Errorf fmt (offending_version migr (CallRun (BufferedBody migr))) c))))"
  using assms
  by (auto simp: runBody_def traced_driver_def logged_def wrapErr_def
      offending_version_def
      split: option.splits prod.splits if_splits)


lemma andThen_cases:
  assumes "andThen x f = (r, t)"
  obtains (stop) e where "x = (Some e, t)" "r = Some e"
        | (go) u where "x = (None, u)" "f u = (r, t)"
  using assms by (cases x) (auto simp: andThen_def split: option.splits)

lemma executor_events:
  assumes "handleSingleMigration (traced_driver drv) migr (s, log) = (r, (s', log'))"
  shows "\<exists>evs. log' = log @ evs \<and> evs \<noteq> [] \<and> snd (snd (last evs)) = s' \<and>
           map fst evs = take (length evs) (executor_steps (isExtended drv) migr) \<and>
           (\<forall>ev \<in> set (butlast evs). fst (snd ev) = None) \<and>
           (case fst (snd (last evs)) of
              None \<Rightarrow> r = None \<and> length evs = length (executor_steps (isExtended drv) migr)
            | Some cause \<Rightarrow> \<exists>fmt. r = Some (Errorf fmt (offending_version migr (fst (last evs))) cause))"
proof -
  let ?d = "dirty_step (isExtended drv) migr"
  let ?c = "clean_step (isExtended drv) migr"
  from assms have top:
    "andThen (andThen (markDirty (traced_driver drv) migr (s, log)) (runBody (traced_driver drv) migr))
       (markClean (traced_driver drv) migr) = (r, (s', log'))"
    by (simp add: handleSingleMigration_def)
  obtain r1 s1 log1 where md: "markDirty (traced_driver drv) migr (s, log) = (r1, (s1, log1))"
    by (metis prod.exhaust)
  from markDirty_traced[OF md] obtain c1 where
    l1: "log1 = log @ [(?d, c1, s1)]" and
    o1: "case c1 of None \<Rightarrow> r1 = None
         | Some c \<Rightarrow> \<exists>fmt. r1 = Some (Errorf fmt (offending_version migr ?d) c)"
    by blast
  show ?thesis
  proof (cases c1)
    case (Some cause)
    with o1 obtain fmt where r1: "r1 = Some (Errorf fmt (offending_version migr ?d) cause)" by auto
    with top md have "r = r1" "s' = s1" "log' = log1" by (auto simp: andThen_def)
    with l1 r1 Some show ?thesis
      by (intro exI[of _ "[(?d, c1, s1)]"]) (auto simp: executor_steps_def)
  next
    case None
    with o1 have r1: "r1 = None" by simp
    obtain r2 s2 log2 where rb: "runBody (traced_driver drv) migr (s1, log1) = (r2, (s2, log2))"
      by (metis prod.exhaust)
    from runBody_traced[OF rb] consider
      (nobody) "Body migr = None" "r2 = None" "s2 = s1" "log2 = log1"
      | (body) c2 where "Body migr \<noteq> None" "log2 = log1 @ [(CallRun (BufferedBody migr), c2, s2)]"
          "case c2 of None \<Rightarrow> r2 = None
           | Some c \<Rightarrow> \<exists>fmt. r2 = Some (Errorf fmt (offending_version migr (CallRun (BufferedBody migr))) c)"
      by (elim disjE conjE exE; simp)
    then show ?thesis
    proof cases
      case nobody
      obtain r3 s3 log3 where mc: "markClean (traced_driver drv) migr (s2, log2) = (r3, (s3, log3))"
        by (metis prod.exhaust)
      from markClean_traced[OF mc] obtain c3 where
        l3: "log3 = log2 @ [(?c, c3, s3)]" and
        o3: "case c3 of None \<Rightarrow> r3 = None
             | Some c \<Rightarrow> \<exists>fmt. r3 = Some (Errorf fmt (offending_version migr ?c) c)"
        by blast
      from top md rb mc r1 nobody have res: "r = r3" "s' = s3" "log' = log3"
        by (auto simp: andThen_def)
      show ?thesis
        using res l3 o3 l1 nobody None
        by (intro exI[of _ "[(?d, None, s1), (?c, c3, s3)]"])
           (auto simp: executor_steps_def run_step_def split: option.splits)
    next
      case body
      show ?thesis
      proof (cases c2)
        case (Some cause)
        with body obtain fmt where
          r2: "r2 = Some (Errorf fmt (offending_version migr (CallRun (BufferedBody migr))) cause)"
          by auto
        with top md rb r1 have res: "r = r2" "s' = s2" "log' = log2" by (auto simp: andThen_def)
        show ?thesis
          using res r2 l1 body None Some
          by (intro exI[of _ "[(?d, None, s1), (CallRun (BufferedBody migr), c2, s2)]"])
             (auto simp: executor_steps_def run_step_def split: option.splits)
      next
        case c2None: None
        with body have r2: "r2 = None" by simp
        obtain r3 s3 log3 where mc: "markClean (traced_driver drv) migr (s2, log2) = (r3, (s3, log3))"
          by (metis prod.exhaust)
        from markClean_traced[OF mc] obtain c3 where
          l3: "log3 = log2 @ [(?c, c3, s3)]" and
          o3: "case c3 of None \<Rightarrow> r3 = None
               | Some c \<Rightarrow> \<exists>fmt. r3 = Some (Errorf fmt (offending_version migr ?c) c)"
          by blast
        from top md rb mc r1 r2 have res: "r = r3" "s' = s3" "log' = log3"
          by (auto simp: andThen_def)
        show ?thesis
          using res l3 o3 l1 body None c2None
          by (intro exI[of _ "[(?d, None, s1), (CallRun (BufferedBody migr), None, s2), (?c, c3, s3)]"])
             (auto simp: executor_steps_def run_step_def split: option.splits)
      qed
    qed
  qed
qed


lemma inTransaction_result:
  assumes "inTransaction bm q cm stmt p = (r, p')"
  shows "(r = None \<and> (\<exists>rows. stmt (migrationsTable p) = Inr rows \<and>
            p' = advance (p\<lparr>migrationsTable := Some rows\<rparr>))) \<or>
         (r \<noteq> None \<and> p' = advance p)"
  using assms
  by (auto simp: inTransaction_def split: option.splits fault.splits sum.splits)

lemma migrationsTable_advance [simp]: "migrationsTable (advance p) = migrationsTable p"
  by (simp add: advance_def)

lemma wrapErr_fst [simp]: "fst (wrapErr msg n x) = None \<longleftrightarrow> fst x = None"
  by (cases x) (auto simp: wrapErr_def split: option.splits)

lemma wrapErr_snd [simp]: "snd (wrapErr msg n x) = snd x"
  by (cases x) (auto simp: wrapErr_def split: option.splits)

lemma markDirty_pg_marks:
  assumes ok: "fst (markDirty (PostgresExtras run sv) migr p) = None"
    and row: "UpKindMigration migr \<or>
              (\<exists>rows. migrationsTable p = Some rows \<and> sint (Version migr) \<in> set (map migration_timestamp rows))"
  shows "\<lparr>migration_timestamp = sint (Version migr), dirty = True\<rparr>
           \<in> set (dirtyRows (snd (markDirty (PostgresExtras run sv) migr p)))"
proof (cases "UpKindMigration migr")
  case True
  obtain r p' where t: "PostgresExtras_AddDirtyMigration (Version migr) p = (r, p')"
    by (metis prod.exhaust)
  with ok True have "r = None" by (simp add: markDirty_def PostgresExtras_def)
  with inTransaction_result[OF t[unfolded PostgresExtras_AddDirtyMigration_def]]
  obtain rows where "sql_insert (sint (Version migr)) (migrationsTable p) = Inr rows"
    "p' = advance (p\<lparr>migrationsTable := Some rows\<rparr>)" by auto
  then show ?thesis using True t
    by (auto simp: markDirty_def PostgresExtras_def dirtyRows_def sql_insert_def
        split: option.splits if_splits)
next
  case False
  obtain r p' where t: "PostgresExtras_UpdateMigrationDirtyFlag (Version migr) True p = (r, p')"
    by (metis prod.exhaust)
  with ok False have "r = None" by (simp add: markDirty_def PostgresExtras_def)
  with inTransaction_result[OF t[unfolded PostgresExtras_UpdateMigrationDirtyFlag_def]]
  obtain rows where "sql_update_dirty True (sint (Version migr)) (migrationsTable p) = Inr rows"
    "p' = advance (p\<lparr>migrationsTable := Some rows\<rparr>)" by auto
  moreover from row False obtain rows0 r0 where "migrationsTable p = Some rows0"
    "r0 \<in> set rows0" "migration_timestamp r0 = sint (Version migr)" by auto
  ultimately show ?thesis using False t
    by (force simp: markDirty_def PostgresExtras_def dirtyRows_def sql_update_dirty_def image_iff
        split: option.splits if_splits)
qed

lemma runBody_keepsTable:
  assumes "keepsTable run"
  shows "migrationsTable (snd (runBody (PostgresExtras run sv) migr p)) = migrationsTable p"
  using assms by (auto simp: runBody_def keepsTable_def PostgresExtras_def split: option.splits)

lemma handleSingleMigration_run_fails:
  assumes "fst (markDirty drv migr s) = None"
    and "fst (runBody drv migr (snd (markDirty drv migr s))) \<noteq> None"
  shows "handleSingleMigration drv migr s = runBody drv migr (snd (markDirty drv migr s))"
  using assms
  by (cases "markDirty drv migr s"; cases "runBody drv migr (snd (markDirty drv migr s))")
     (auto simp: handleSingleMigration_def andThen_def)


text \<open>
  C1. A run of \<open>handleSingleMigration\<close> that returns nil has made exactly the driver
  calls of the three steps, in order and each returning nil: the call that marks the
  record dirty (\<open>AddDirtyMigration(version)\<close> for an Up record and
  \<open>UpdateMigrationDirtyFlag(version, true)\<close> for a Down record on an Extended
  driver, \<open>SetVersion(targetVersion, true)\<close> on a Basic driver), \<open>Run\<close> of the
  buffered content when the body is not nil, and the call that marks it clean
  (\<open>UpdateMigrationDirtyFlag(version, false)\<close> for Up, \<open>RemoveMigration(version)\<close>
  for Down, \<open>SetVersion(targetVersion, false)\<close> on a Basic driver). The backend is
  left in the state the last call produced.
\<close>

theorem handleSingleMigration_three_steps:
  assumes "handleSingleMigration (traced_driver drv) migr (s, log) = (None, (s', log'))"
  shows "\<exists>evs. log' = log @ evs \<and>
           map fst evs = executor_steps (isExtended drv) migr \<and>
           (\<forall>ev \<in> set evs. fst (snd ev) = None) \<and>
           snd (snd (last evs)) = s'"
proof -
  from executor_events[OF assms] obtain evs where
    e: "log' = log @ evs" "evs \<noteq> []" "snd (snd (last evs)) = s'"
       "map fst evs = take (length evs) (executor_steps (isExtended drv) migr)"
       "\<forall>ev \<in> set (butlast evs). fst (snd ev) = None"
    and c: "case fst (snd (last evs)) of
              None \<Rightarrow> None = (None :: error option) \<and>
                      length evs = length (executor_steps (isExtended drv) migr)
            | Some cause \<Rightarrow> \<exists>fmt. None = Some (Errorf fmt (offending_version migr (fst (last evs))) cause)"
    by blast
  from c have l: "fst (snd (last evs)) = None"
    "length evs = length (executor_steps (isExtended drv) migr)"
    by (auto split: option.splits)
  from e(2) have "set evs = insert (last evs) (set (butlast evs))"
    by (metis append_butlast_last_id list.simps(15) rotate1.simps(2) set_rotate1)
  with e(5) l(1) have "\<forall>ev \<in> set evs. fst (snd ev) = None" by auto
  with e l show ?thesis by auto
qed

theorem handleSingleMigration_three_steps_witness:
  "fst (handleSingleMigration (traced_driver (pgDriver [])) ordersUp (emptyHistory, [])) = None \<and>
   (\<exists>evs. snd (snd (handleSingleMigration (traced_driver (pgDriver [])) ordersUp (emptyHistory, []))) = [] @ evs \<and>
      map fst evs = executor_steps (isExtended (pgDriver [])) ordersUp \<and>
      (\<forall>ev \<in> set evs. fst (snd ev) = None) \<and>
      snd (snd (last evs)) =
        fst (snd (handleSingleMigration (traced_driver (pgDriver [])) ordersUp (emptyHistory, []))))"
proof -
  have ok: "fst (handleSingleMigration (traced_driver (pgDriver [])) ordersUp (emptyHistory, [])) = None"
    by (simp add: run_defs)
  then have "handleSingleMigration (traced_driver (pgDriver [])) ordersUp (emptyHistory, []) =
      (None, (fst (snd (handleSingleMigration (traced_driver (pgDriver [])) ordersUp (emptyHistory, []))),
              snd (snd (handleSingleMigration (traced_driver (pgDriver [])) ordersUp (emptyHistory, [])))))"
    by (simp add: prod_eq_iff)
  from handleSingleMigration_three_steps[OF this] ok show ?thesis by blast
qed

lemma dirty_step_not_run [simp]: "dirty_step x migr \<noteq> CallRun b" "CallRun b \<noteq> dirty_step x migr"
  by (auto simp: dirty_step_def)

lemma clean_step_not_run [simp]: "clean_step x migr \<noteq> CallRun b" "CallRun b \<noteq> clean_step x migr"
  by (auto simp: clean_step_def)

lemma run_is_second:
  assumes "map fst pre @ [CallRun b] = take (Suc (length pre)) (executor_steps x migr)"
  shows "map fst pre = [dirty_step x migr]"
proof (cases pre)
  case Nil
  with assms show ?thesis by (simp add: executor_steps_def)
next
  case (Cons p ps)
  note c1 = Cons
  show ?thesis
  proof (cases ps)
    case Nil
    with c1 assms show ?thesis by (simp add: executor_steps_def)
  next
    case (Cons q qs)
    note c2 = Cons
    show ?thesis
    proof (cases "Body migr")
      case None
      with c1 c2 assms show ?thesis by (simp add: executor_steps_def run_step_def)
    next
      case (Some bb)
      with c1 c2 assms show ?thesis
        by (cases qs) (simp_all add: executor_steps_def run_step_def)
    qed
  qed
qed

lemma keepsTable_scriptRun: "keepsTable (scriptRun bad)"
  by (simp add: keepsTable_def scriptRun_def)

text \<open>
  C2. Whatever \<open>handleSingleMigration\<close> returns, the driver calls it made are a
  prefix of the three steps, every call before the last returned nil, and the backend
  is left in the state the last call produced: nothing is called after a failing call
  and no completed step is undone. When the last call returned nil, all the steps were
  made and the result is nil. When the last call returned an error \<open>cause\<close>, the result
  is an error that wraps \<open>cause\<close> together with the offending version (the version
  argument of the failing call; the version of the record when \<open>Run\<close> fails); and when
  that failing call is \<open>Run\<close>, the only call before it is the call that marked the
  record dirty. On the Postgres extended driver, whose \<open>Run\<close> does not write to the
  migrations table: if the dirty marker was set and the run of the content then fails,
  the executor returns an error and the table holds the row of the record's version
  (the timestamp \<open>int64(version)\<close> that the marker call bound) with \<open>dirty = true\<close>;
  for a Down record, the row the marker call flagged must exist.
\<close>

theorem handleSingleMigration_failure:
  "(handleSingleMigration (traced_driver drv) migr (s, log) = (r, (s', log')) \<longrightarrow>
     (\<exists>evs. log' = log @ evs \<and> evs \<noteq> [] \<and> snd (snd (last evs)) = s' \<and>
        map fst evs = take (length evs) (executor_steps (isExtended drv) migr) \<and>
        (\<forall>ev \<in> set (butlast evs). fst (snd ev) = None) \<and>
        (case fst (snd (last evs)) of
           None \<Rightarrow> r = None \<and> length evs = length (executor_steps (isExtended drv) migr)
         | Some cause \<Rightarrow>
             (\<exists>fmt. r = Some (Errorf fmt (offending_version migr (fst (last evs))) cause)) \<and>
             (fst (last evs) = CallRun (BufferedBody migr) \<longrightarrow>
                map fst (butlast evs) = [dirty_step (isExtended drv) migr])))) \<and>
   (keepsTable run \<and>
    fst (markDirty (PostgresExtras run sv) rec p) = None \<and>
    fst (runBody (PostgresExtras run sv) rec (snd (markDirty (PostgresExtras run sv) rec p))) \<noteq> None \<and>
    (UpKindMigration rec \<or>
      (\<exists>rows. migrationsTable p = Some rows \<and> sint (Version rec) \<in> set (map migration_timestamp rows))) \<longrightarrow>
      fst (handleSingleMigration (PostgresExtras run sv) rec p) \<noteq> None \<and>
      \<lparr>migration_timestamp = sint (Version rec), dirty = True\<rparr>
        \<in> set (dirtyRows (snd (handleSingleMigration (PostgresExtras run sv) rec p))))"
proof (intro conjI impI)
  let ?steps = "executor_steps (isExtended drv) migr"
  assume a: "handleSingleMigration (traced_driver drv) migr (s, log) = (r, (s', log'))"
  from executor_events[OF a] obtain evs where
    e: "log' = log @ evs" "evs \<noteq> []" "snd (snd (last evs)) = s'"
       "map fst evs = take (length evs) ?steps"
       "\<forall>ev \<in> set (butlast evs). fst (snd ev) = None"
    and c: "case fst (snd (last evs)) of
              None \<Rightarrow> r = None \<and> length evs = length ?steps
            | Some cause \<Rightarrow> \<exists>fmt. r = Some (Errorf fmt (offending_version migr (fst (last evs))) cause)"
    by blast
  have g: "map fst (butlast evs) = [dirty_step (isExtended drv) migr]"
    if "fst (last evs) = CallRun (BufferedBody migr)"
  proof -
    from e(2) obtain pre ev where sp: "evs = pre @ [ev]"
      by (cases evs rule: rev_cases) auto
    from e(4) that have "map fst pre @ [CallRun (BufferedBody migr)] =
        take (Suc (length pre)) ?steps"
      unfolding sp by simp
    then have "map fst pre = [dirty_step (isExtended drv) migr]" by (rule run_is_second)
    then show ?thesis unfolding sp by simp
  qed
  have k: "case fst (snd (last evs)) of
           None \<Rightarrow> r = None \<and> length evs = length ?steps
         | Some cause \<Rightarrow>
             (\<exists>fmt. r = Some (Errorf fmt (offending_version migr (fst (last evs))) cause)) \<and>
             (fst (last evs) = CallRun (BufferedBody migr) \<longrightarrow>
                map fst (butlast evs) = [dirty_step (isExtended drv) migr])"
    using c g by (cases "fst (snd (last evs))") simp_all
  show "\<exists>evs. log' = log @ evs \<and> evs \<noteq> [] \<and> snd (snd (last evs)) = s' \<and>
        map fst evs = take (length evs) ?steps \<and>
        (\<forall>ev \<in> set (butlast evs). fst (snd ev) = None) \<and>
        (case fst (snd (last evs)) of
           None \<Rightarrow> r = None \<and> length evs = length ?steps
         | Some cause \<Rightarrow>
             (\<exists>fmt. r = Some (Errorf fmt (offending_version migr (fst (last evs))) cause)) \<and>
             (fst (last evs) = CallRun (BufferedBody migr) \<longrightarrow>
                map fst (butlast evs) = [dirty_step (isExtended drv) migr]))"
    using e k by (intro exI[of _ evs] conjI)
next
  assume b: "keepsTable run \<and>
    fst (markDirty (PostgresExtras run sv) rec p) = None \<and>
    fst (runBody (PostgresExtras run sv) rec (snd (markDirty (PostgresExtras run sv) rec p))) \<noteq> None \<and>
    (UpKindMigration rec \<or>
      (\<exists>rows. migrationsTable p = Some rows \<and> sint (Version rec) \<in> set (map migration_timestamp rows)))"
  then have h: "handleSingleMigration (PostgresExtras run sv) rec p =
      runBody (PostgresExtras run sv) rec (snd (markDirty (PostgresExtras run sv) rec p))"
    by (intro handleSingleMigration_run_fails) auto
  with b show "fst (handleSingleMigration (PostgresExtras run sv) rec p) \<noteq> None" by simp
  from b have "\<lparr>migration_timestamp = sint (Version rec), dirty = True\<rparr>
           \<in> set (dirtyRows (snd (markDirty (PostgresExtras run sv) rec p)))"
    by (intro markDirty_pg_marks) auto
  moreover from b have "migrationsTable (snd (runBody (PostgresExtras run sv) rec (snd (markDirty (PostgresExtras run sv) rec p))))
      = migrationsTable (snd (markDirty (PostgresExtras run sv) rec p))"
    by (intro runBody_keepsTable) auto
  ultimately show "\<lparr>migration_timestamp = sint (Version rec), dirty = True\<rparr>
        \<in> set (dirtyRows (snd (handleSingleMigration (PostgresExtras run sv) rec p)))"
    using h by (simp add: dirtyRows_def)
qed

theorem handleSingleMigration_failure_witness:
  "fst (handleSingleMigration (traced_driver (pgDriver [''CREATE TABLE orders ();'']))
          ordersUp (emptyHistory, [])) =
     Some (Errorf ''failed to run migration %d body: %w'' 130
            (DatabaseError (PqError ''syntax_error'') ''CREATE TABLE orders ();'')) \<and>
   keepsTable (scriptRun [''CREATE TABLE orders ();'']) \<and>
   fst (markDirty (pgDriver [''CREATE TABLE orders ();'']) ordersUp emptyHistory) = None \<and>
   fst (runBody (pgDriver [''CREATE TABLE orders ();'']) ordersUp
          (snd (markDirty (pgDriver [''CREATE TABLE orders ();'']) ordersUp emptyHistory))) \<noteq> None \<and>
   UpKindMigration ordersUp \<and>
   (\<exists>evs cause fmt.
      snd (snd (handleSingleMigration (traced_driver (pgDriver [''CREATE TABLE orders ();'']))
                  ordersUp (emptyHistory, []))) = [] @ evs \<and>
      evs \<noteq> [] \<and>
      snd (snd (last evs)) =
        fst (snd (handleSingleMigration (traced_driver (pgDriver [''CREATE TABLE orders ();'']))
                    ordersUp (emptyHistory, []))) \<and>
      fst (snd (last evs)) = Some cause \<and>
      fst (last evs) = CallRun (BufferedBody ordersUp) \<and>
      map fst (butlast evs) = [dirty_step (isExtended (pgDriver [''CREATE TABLE orders ();''])) ordersUp] \<and>
      Some (Errorf ''failed to run migration %d body: %w'' 130
        (DatabaseError (PqError ''syntax_error'') ''CREATE TABLE orders ();'')) =
        Some (Errorf fmt (offending_version ordersUp (fst (last evs))) cause)) \<and>
   \<lparr>migration_timestamp = 130, dirty = True\<rparr>
     \<in> set (dirtyRows (snd (handleSingleMigration (pgDriver [''CREATE TABLE orders ();''])
                               ordersUp emptyHistory)))"
proof -
  let ?B = "[''CREATE TABLE orders ();'']"
  let ?X = "handleSingleMigration (traced_driver (pgDriver ?B)) ordersUp (emptyHistory, [])"
  let ?C = "DatabaseError (PqError ''syntax_error'') ''CREATE TABLE orders ();''"
  let ?E = "Errorf ''failed to run migration %d body: %w'' 130 ?C"
  have h1: "fst ?X = Some ?E" by (simp add: run_defs)
  then have x: "?X = (Some ?E, (fst (snd ?X), snd (snd ?X)))" by (simp add: prod_eq_iff)
  have h2: "keepsTable (scriptRun ?B)" by (rule keepsTable_scriptRun)
  have h3: "fst (markDirty (pgDriver ?B) ordersUp emptyHistory) = None" by (simp add: run_defs)
  have h4: "fst (runBody (pgDriver ?B) ordersUp (snd (markDirty (pgDriver ?B) ordersUp emptyHistory))) \<noteq> None"
    by (simp add: run_defs)
  have h5: "UpKindMigration ordersUp" by (simp add: ordersUp_def)
  have v: "sint (Version ordersUp) = 130" by (simp add: ordersUp_def)
  note t = handleSingleMigration_failure[of "pgDriver ?B" ordersUp emptyHistory "[]" "Some ?E"
      "fst (snd ?X)" "snd (snd ?X)" "scriptRun ?B" noSetVersion ordersUp emptyHistory]
  from t[THEN conjunct1, rule_format, OF x] obtain evs where f:
    "snd (snd ?X) = [] @ evs" "evs \<noteq> []" "snd (snd (last evs)) = fst (snd ?X)"
    and k: "case fst (snd (last evs)) of
           None \<Rightarrow> Some ?E = None \<and>
             length evs = length (executor_steps (isExtended (pgDriver ?B)) ordersUp)
         | Some cause \<Rightarrow>
             (\<exists>fmt. Some ?E = Some (Errorf fmt (offending_version ordersUp (fst (last evs))) cause)) \<and>
             (fst (last evs) = CallRun (BufferedBody ordersUp) \<longrightarrow>
                map fst (butlast evs) = [dirty_step (isExtended (pgDriver ?B)) ordersUp])"
    by (elim exE conjE)
  have l: "fst (last (snd (snd ?X))) = CallRun (BufferedBody ordersUp)" by (simp add: run_defs)
  with f(1) have c: "fst (last evs) = CallRun (BufferedBody ordersUp)" by simp
  from k obtain cause fmt where q: "fst (snd (last evs)) = Some cause"
    "Some ?E = Some (Errorf fmt (offending_version ordersUp (fst (last evs))) cause)"
    "fst (last evs) = CallRun (BufferedBody ordersUp) \<longrightarrow>
       map fst (butlast evs) = [dirty_step (isExtended (pgDriver ?B)) ordersUp]"
    by (cases "fst (snd (last evs))") auto
  from q(3) c have p: "map fst (butlast evs) = [dirty_step (isExtended (pgDriver ?B)) ordersUp]"
    by simp
  have hyp: "keepsTable (scriptRun ?B) \<and>
    fst (markDirty (PostgresExtras (scriptRun ?B) noSetVersion) ordersUp emptyHistory) = None \<and>
    fst (runBody (PostgresExtras (scriptRun ?B) noSetVersion) ordersUp
          (snd (markDirty (PostgresExtras (scriptRun ?B) noSetVersion) ordersUp emptyHistory))) \<noteq> None \<and>
    (UpKindMigration ordersUp \<or>
      (\<exists>rows. migrationsTable emptyHistory = Some rows \<and>
         sint (Version ordersUp) \<in> set (map migration_timestamp rows)))"
    using h2 h3 h4 h5 by (simp add: pgDriver_def)
  from t[THEN conjunct2, rule_format, OF hyp]
  have "\<lparr>migration_timestamp = sint (Version ordersUp), dirty = True\<rparr>
     \<in> set (dirtyRows (snd (handleSingleMigration (PostgresExtras (scriptRun ?B) noSetVersion)
                               ordersUp emptyHistory)))"
    by (rule conjunct2)
  then have d: "\<lparr>migration_timestamp = 130, dirty = True\<rparr>
     \<in> set (dirtyRows (snd (handleSingleMigration (pgDriver ?B) ordersUp emptyHistory)))"
    by (simp only: v pgDriver_def)
  have ex: "\<exists>evs cause fmt.
      snd (snd ?X) = [] @ evs \<and> evs \<noteq> [] \<and> snd (snd (last evs)) = fst (snd ?X) \<and>
      fst (snd (last evs)) = Some cause \<and>
      fst (last evs) = CallRun (BufferedBody ordersUp) \<and>
      map fst (butlast evs) = [dirty_step (isExtended (pgDriver ?B)) ordersUp] \<and>
      Some ?E = Some (Errorf fmt (offending_version ordersUp (fst (last evs))) cause)"
    using f c p q(1,2) by (intro exI[of _ evs] exI[of _ cause] exI[of _ fmt] conjI)
  show ?thesis using h1 h2 h3 h4 h5 ex d by (intro conjI)
qed

section \<open>Properties of the queueing pipelines\<close>

lemma newMigration_opens:
  "opens m v t \<Longrightarrow> newMigration m v t = Inr (migrationRecord m False v t)"
  by (auto simp: opens_def newMigration_def migrationRecord_def split: sum.splits)

lemma length_withNextOlder [simp]: "length (withNextOlder ap) = length ap"
  by (simp add: withNextOlder_def)

lemma withNextOlder_nth:
  assumes "i < length ap"
  shows "withNextOlder ap ! i = (ap ! i, if i = length ap - 1 then -1 else ap ! (i + 1))"
proof -
  have "(tl ap @ [-1]) ! i = (if i = length ap - 1 then -1 else ap ! (i + 1))"
    using assms by (cases ap) (auto simp: nth_append nth_tl)
  with assms show ?thesis by (simp add: withNextOlder_def)
qed

lemma down_loop:
  assumes op: "\<forall>vt \<in> set (withNextOlder ap). opens m (word_of_int (fst vt)) (snd vt)"
    and nostop: "\<forall>i < J. \<not> stop m i"
    and nolimit: "\<forall>i < J. \<not> (limit \<noteq> -1 \<and> limit \<le> int i)"
    and JJ: "J \<le> length ap"
    and fin: "J = length ap \<or> stop m J \<or> (limit \<noteq> -1 \<and> limit \<le> int J)"
    and i: "i \<le> J"
  shows "queueDownMigrations_loop m ap limit i (int i) ret =
     noChangeIfNone (int J) (ret @ map (Inr \<circ> downRecord m) (take (J - i) (drop i (withNextOlder ap))))"
  using i
proof (induction "J - i" arbitrary: i ret)
  case 0
  then have "i = J" by simp
  with fin show ?case
    by (subst queueDownMigrations_loop.simps) auto
next
  case (Suc d)
  then have lt: "i < J" by simp
  with JJ have il: "i < length ap" by simp
  from lt nostop have ns: "\<not> stop m i" by simp
  from lt nolimit have nl: "\<not> (limit \<noteq> -1 \<and> int i \<ge> limit)" by blast
  let ?vt = "withNextOlder ap ! i"
  have vt: "?vt = (ap ! i, if i = length ap - 1 then -1 else ap ! (i + 1))"
    by (rule withNextOlder_nth[OF il])
  have "?vt \<in> set (withNextOlder ap)" using il by simp
  with op have "opens m (word_of_int (fst ?vt)) (snd ?vt)" by blast
  then have nm: "newMigration m (word_of_int (ap ! i)) (if i = length ap - 1 then -1 else ap ! (i + 1))
      = Inr (downRecord m ?vt)"
    unfolding downRecord_def vt by (simp add: newMigration_opens)
  have step: "queueDownMigrations_loop m ap limit i (int i) ret =
      queueDownMigrations_loop m ap limit (Suc i) (int (Suc i)) (ret @ [Inr (downRecord m ?vt)])"
    using il ns nl nm by (subst queueDownMigrations_loop.simps) (auto simp: Let_def add.commute)
  have dr: "take (J - i) (drop i (withNextOlder ap)) =
      ?vt # take (J - Suc i) (drop (Suc i) (withNextOlder ap))"
    using lt il by (metis Cons_nth_drop_Suc Suc_diff_Suc length_withNextOlder take_Suc_Cons)
  from Suc(2) have d: "d = J - Suc i" by simp
  from lt have "Suc i \<le> J" by simp
  from Suc(1)[OF d this] step dr show ?case by simp
qed


lemma queueDownMigrations_eq:
  assumes op: "\<forall>vt \<in> set (withNextOlder ap). opens m (word_of_int (fst vt)) (snd vt)"
    and st: "stops_at (stop m) (length ap) k"
  shows "queueDownMigrations m ap limit =
     (let recs = map (downRecord m) (limited limit (take k (withNextOlder ap)))
      in map Inr recs @ (if recs = [] then [Inl ErrNoChange] else []))"
proof -
  define J where "J = (if limit = -1 then k else min k (nat limit))"
  from st have k: "k \<le> length ap" "\<forall>i < k. \<not> stop m i" "k = length ap \<or> stop m k"
    by (auto simp: stops_at_def)
  have Jk: "J \<le> k" by (simp add: J_def)
  have tk: "limited limit (take k (withNextOlder ap)) = take J (withNextOlder ap)"
    by (simp add: limited_def J_def min.commute)
  have len: "length (take J (withNextOlder ap)) = J" using Jk k(1) by simp
  have a1: "\<forall>i < J. \<not> stop m i" using k(2) Jk by auto
  have a2: "\<forall>i < J. \<not> (limit \<noteq> -1 \<and> limit \<le> int i)" by (auto simp: J_def)
  have a3: "J \<le> length ap" using Jk k(1) by simp
  have a4: "J = length ap \<or> stop m J \<or> (limit \<noteq> -1 \<and> limit \<le> int J)"
    using k(3) by (auto simp: J_def min_def)
  have loop: "queueDownMigrations_loop m ap limit 0 0 [] =
      noChangeIfNone (int J) (map (Inr \<circ> downRecord m) (take J (withNextOlder ap)))"
    using down_loop[OF op a1 a2 a3 a4, of 0 "[]"] by simp
  have empty: "take J (withNextOlder ap) = [] \<longleftrightarrow> J = 0" using len by (metis length_0_conv)
  show ?thesis
  proof (cases "length ap = 0 \<or> limit = 0")
    case True
    then have "J = 0" using Jk k(1) by (auto simp: J_def)
    with True show ?thesis by (simp add: queueDownMigrations_def tk)
  next
    case False
    then show ?thesis
      using loop empty by (simp add: queueDownMigrations_def tk noChangeIfNone_def Let_def)
  qed
qed

lemma migrationRecord_up [simp]:
  "(migrationRecord m False v t)\<lparr>UpKindMigration := True\<rparr> = migrationRecord m True v t"
  by (simp add: migrationRecord_def Let_def)

lemma allowance_Cons:
  assumes "limit = -1 \<or> c < limit"
  shows "allowance limit c (x # xs) = x # allowance limit (c + 1) xs"
proof (cases "limit = -1")
  case True
  then show ?thesis by (simp add: allowance_def)
next
  case False
  with assms have "nat (limit - c) = Suc (nat (limit - (c + 1)))" by simp
  with False show ?thesis by (simp add: allowance_def)
qed

lemma up_loop:
  assumes op: "\<forall>x \<in> set (v # ws). opens m x (sint x)"
    and walk: "source_walk (sourceDrv m) v ws"
    and k: "k \<le> length (v # ws)" "\<forall>i < k. \<not> stop m (p + i)" "k = length (v # ws) \<or> stop m (p + k)"
    and c: "0 \<le> c"
  shows "queueUpMigrations_loop m A limit v c p ret =
     Some (let al = allowance limit c (filter (\<lambda>x. sint x \<notin> A) (take k (v # ws)))
           in noChangeIfNone (c + int (length al)) (ret @ map (Inr \<circ> upRecord m) al))"
  using assms
proof (induction ws arbitrary: v c p ret k)
  case Nil
  from Nil.prems(2) obtain err where nx: "Next (sourceDrv m) v = Inl err" "errors_Is err ErrNotExist"
    by (auto split: sum.splits)
  from Nil.prems(1) have nm: "newMigration m v (sint v) = Inr (migrationRecord m False v (sint v))"
    by (simp add: newMigration_opens)
  from Nil.prems(3,5) have "k = 0 \<and> stop m p \<or> k = 1" by (cases k) auto
  then show ?case
  proof
    assume "k = 0 \<and> stop m p"
    then show ?thesis
      by (subst queueUpMigrations_loop.simps) (auto simp: allowance_def noChangeIfNone_def)
  next
    assume k1: "k = 1"
    with Nil.prems(4) have "\<not> stop m p" by auto
    with k1 nx nm Nil.prems(6) show ?thesis
      by (subst queueUpMigrations_loop.simps)
         (auto simp: allowance_def noChangeIfNone_def upRecord_def Let_def)
  qed
next
  case (Cons w ws)
  from Cons.prems(2) have nx: "Next (sourceDrv m) v = Inr w" and walk': "source_walk (sourceDrv m) w ws"
    by auto
  from Cons.prems(1) have nm: "newMigration m v (sint v) = Inr (migrationRecord m False v (sint v))"
    and op': "\<forall>x \<in> set (w # ws). opens m x (sint x)"
    by (simp_all add: newMigration_opens)
  show ?case
  proof (cases k)
    case 0
    with Cons.prems(5) have "stop m p" by auto
    with 0 show ?thesis
      by (subst queueUpMigrations_loop.simps) (auto simp: allowance_def noChangeIfNone_def)
  next
    case (Suc k')
    with Cons.prems(4) have ns: "\<not> stop m p" by force
    from Suc Cons.prems(3,4,5) have k': "k' \<le> length (w # ws)" "\<forall>i < k'. \<not> stop m (Suc p + i)"
      "k' = length (w # ws) \<or> stop m (Suc p + k')"
      by auto
    show ?thesis
    proof (cases "limit = -1 \<or> c < limit")
      case False
      then show ?thesis
        by (subst queueUpMigrations_loop.simps) (auto simp: allowance_def noChangeIfNone_def)
    next
      case True
      show ?thesis
      proof (cases "sint v \<in> A")
        case applied: True
        have "queueUpMigrations_loop m A limit v c p ret =
            queueUpMigrations_loop m A limit w c (Suc p) ret"
          using True ns applied nx by (subst queueUpMigrations_loop.simps) auto
        also note Cons.IH[OF op' walk' k' Cons.prems(6)]
        finally show ?thesis using applied Suc by simp
      next
        case fresh: False
        have c1: "0 \<le> c + 1" using Cons.prems(6) by simp
        have "queueUpMigrations_loop m A limit v c p ret =
            queueUpMigrations_loop m A limit w (c + 1) (Suc p) (ret @ [Inr (upRecord m v)])"
          using True ns fresh nx nm
          by (subst queueUpMigrations_loop.simps) (auto simp: upRecord_def)
        also note Cons.IH[OF op' walk' k' c1]
        finally show ?thesis using fresh Suc
          by (simp add: allowance_Cons[OF True] Let_def algebra_simps)
      qed
    qed
  qed
qed


lemma queueUpMigrations_eq:
  assumes seq: "source_sequence (sourceDrv m) vs"
    and op: "\<forall>v \<in> set vs. opens m v (sint v)"
    and st: "stops_at (stop m) (length vs) k"
  shows "queueUpMigrations m ap limit =
     Some (let recs = map (upRecord m) (limited limit (filter (\<lambda>v. sint v \<notin> set ap) (take k vs)))
           in map Inr recs @ (if recs = [] then [Inl ErrNoChange] else []))"
proof (cases vs)
  case Nil
  with seq obtain err where "First (sourceDrv m) = Inl err" "errors_Is err ErrNotExist"
    by (auto simp: source_sequence_def split: sum.splits)
  with Nil show ?thesis by (simp add: queueUpMigrations_def limited_def)
next
  case (Cons v ws)
  with seq have f: "First (sourceDrv m) = Inr v" and w: "source_walk (sourceDrv m) v ws"
    by (auto simp: source_sequence_def)
  from st Cons have k: "k \<le> length (v # ws)" "\<forall>i < k. \<not> stop m (0 + i)"
    "k = length (v # ws) \<or> stop m (0 + k)"
    by (auto simp: stops_at_def)
  from op Cons have op': "\<forall>x \<in> set (v # ws). opens m x (sint x)" by simp
  have al: "allowance limit 0 xs = limited limit xs" for xs :: "go_uint list"
    by (simp add: allowance_def limited_def)
  show ?thesis
    using up_loop[OF op' w k, of 0 "set ap" limit "[]"] f Cons
    by (simp add: queueUpMigrations_def al Let_def noChangeIfNone_def)
qed

lemma sint_small:
  assumes "uint (v :: 64 word) < 2 ^ 63"
  shows "sint v = uint v"
proof -
  have "sint v = signed_take_bit 63 (uint v)" by (simp add: sint_uint)
  also have "\<dots> = uint v"
    using assms by (intro signed_take_bit_int_eq_self) (auto intro: order_trans[of _ 0])
  finally show ?thesis .
qed


lemma records_simps [simp]:
  "records [] = []"
  "records (Inl e # xs) = records xs"
  "records (Inr r # xs) = r # records xs"
  "records (xs @ ys) = records xs @ records ys"
  by (simp_all add: records_def)

lemma records_map_Inr [simp]: "records (map Inr rs) = rs"
  by (induction rs) simp_all


lemma stops_at_exists: "\<exists>k. stops_at stp n k"
proof (cases "\<exists>i < n. stp i")
  case True
  then obtain i where i: "i < n" "stp i" by blast
  define k where "k = (LEAST i. stp i)"
  have s: "stp k" unfolding k_def using i(2) by (rule LeastI)
  have "k \<le> i" unfolding k_def using i(2) by (rule Least_le)
  with i(1) have le: "k \<le> n" by simp
  have no: "\<not> (\<exists>j < k. stp j)"
  proof
    assume "\<exists>j < k. stp j"
    then obtain j where "j < k" "stp j" by blast
    then show False unfolding k_def using not_less_Least by blast
  qed
  have "stops_at stp n k" unfolding stops_at_def using le no s by blast
  then show ?thesis ..
next
  case False
  then have "stops_at stp n n" unfolding stops_at_def by blast
  then show ?thesis ..
qed


lemma upRecord_fields:
  "Version (upRecord m v) = v \<and> TargetVersion (upRecord m v) = sint v \<and>
   UpKindMigration (upRecord m v) \<and> (uint v < 2 ^ 63 \<longrightarrow> TargetVersion (upRecord m v) = uint v)"
  by (simp add: upRecord_def migrationRecord_def Let_def sint_small)

lemma downRecord_fields:
  "Version (downRecord m (v, t)) = word_of_int v \<and> TargetVersion (downRecord m (v, t)) = t \<and>
   \<not> UpKindMigration (downRecord m (v, t))"
  by (simp add: downRecord_def migrationRecord_def Let_def)

text \<open>
  C3. Let \<open>vs\<close> be the source sequence (what \<open>First()\<close> and then \<open>Next\<close> yield, up
  to the end of the sequence), let the content of every version open, and let the stop
  flag answer "stop" for the first time at its poll number \<open>k\<close> (\<open>k = length vs\<close>: not
  while the source lasts). Then \<open>queueUpMigrations\<close> returns, and what it sent is: one
  Up record for each of the versions of \<open>take k vs\<close> that are not in the applied set,
  in source order, cut after \<open>limit\<close> records when \<open>limit \<noteq> -1\<close>; followed by
  \<open>ErrNoChange\<close> when there is no record. Each record has its own version as target
  version (\<open>int(version)\<close>, numerically the version itself below \<open>2^63\<close>) and is
  marked as an Up migration.
\<close>

theorem queueUpMigrations_enqueues:
  assumes "source_sequence (sourceDrv m) vs"
    and "\<forall>v \<in> set vs. opens m v (sint v)"
    and "stops_at (stop m) (length vs) k"
  shows "queueUpMigrations m appliedMigrs limit =
     Some (let recs = map (upRecord m)
                        (limited limit (filter (\<lambda>v. sint v \<notin> set appliedMigrs) (take k vs)))
           in map Inr recs @ (if recs = [] then [Inl ErrNoChange] else [])) \<and>
     (\<forall>v. Version (upRecord m v) = v \<and> TargetVersion (upRecord m v) = sint v \<and>
          UpKindMigration (upRecord m v) \<and>
          (uint v < 2 ^ 63 \<longrightarrow> TargetVersion (upRecord m v) = uint v))"
  using queueUpMigrations_eq[OF assms] upRecord_fields by blast

lemmas sample_defs = sampleMigrate_def pgMigrate_def listSource_def source_sequence_def
  opens_def stops_at_def neverStop_def alwaysStop_def limited_def withNextOlder_def

theorem queueUpMigrations_enqueues_witness:
  "source_sequence (sourceDrv (sampleMigrate neverStop)) [130, 135, 140] \<and>
   opens (sampleMigrate neverStop) 130 (sint (130 :: go_uint)) \<and>
   opens (sampleMigrate neverStop) 135 (sint (135 :: go_uint)) \<and>
   opens (sampleMigrate neverStop) 140 (sint (140 :: go_uint)) \<and>
   stops_at (stop (sampleMigrate neverStop)) (length [130, 135, 140 :: go_uint]) 3 \<and>
   queueUpMigrations (sampleMigrate neverStop) [135] (- 1) =
     Some [Inr (upRecord (sampleMigrate neverStop) 130), Inr (upRecord (sampleMigrate neverStop) 140)]"
proof -
  have h1: "source_sequence (sourceDrv (sampleMigrate neverStop)) [130, 135, 140]"
    by (simp add: sample_defs)
  have o: "opens (sampleMigrate neverStop) 130 (sint (130 :: go_uint))"
    "opens (sampleMigrate neverStop) 135 (sint (135 :: go_uint))"
    "opens (sampleMigrate neverStop) 140 (sint (140 :: go_uint))"
    by (simp_all add: sample_defs)
  then have h2: "\<forall>v \<in> set [130, 135, 140]. opens (sampleMigrate neverStop) v (sint v)"
    by simp
  have h3: "stops_at (stop (sampleMigrate neverStop)) (length [130, 135, 140 :: go_uint]) 3"
    by (simp add: sample_defs)
  from queueUpMigrations_enqueues[OF h1 h2 h3, of "[135]" "- 1"]
  have "queueUpMigrations (sampleMigrate neverStop) [135] (- 1) =
     Some [Inr (upRecord (sampleMigrate neverStop) 130), Inr (upRecord (sampleMigrate neverStop) 140)]"
    by (simp add: limited_def)
  with h1 o h3 show ?thesis by (intro conjI)
qed

text \<open>
  C4. Let the content of every record open and let the stop flag answer "stop" for the
  first time at its poll number \<open>k\<close> (\<open>k = length appliedMigrs\<close>: never during the
  loop). Then \<open>queueDownMigrations\<close> sends a Down record for each of the first \<open>k\<close>
  applied versions in list order, cut after \<open>limit\<close> records when \<open>limit \<noteq> -1\<close>,
  where the target version of a record is the next list element, or \<open>-1\<close> for the last
  element; \<open>ErrNoChange\<close> follows when there is no record. For an empty list or
  \<open>limit = 0\<close> it sends \<open>ErrNoChange\<close> alone.
\<close>

theorem queueDownMigrations_enqueues:
  assumes "\<forall>vt \<in> set (withNextOlder appliedMigrs). opens m (word_of_int (fst vt)) (snd vt)"
    and "stops_at (stop m) (length appliedMigrs) k"
  shows "queueDownMigrations m appliedMigrs limit =
     (let recs = map (downRecord m) (limited limit (take k (withNextOlder appliedMigrs)))
      in map Inr recs @ (if recs = [] then [Inl ErrNoChange] else [])) \<and>
     (\<forall>v t. Version (downRecord m (v, t)) = word_of_int v \<and>
            TargetVersion (downRecord m (v, t)) = t \<and>
            \<not> UpKindMigration (downRecord m (v, t))) \<and>
     (appliedMigrs = [] \<or> limit = 0 \<longrightarrow>
        queueDownMigrations m appliedMigrs limit = [Inl ErrNoChange])"
proof (intro conjI allI impI)
  show "queueDownMigrations m appliedMigrs limit =
     (let recs = map (downRecord m) (limited limit (take k (withNextOlder appliedMigrs)))
      in map Inr recs @ (if recs = [] then [Inl ErrNoChange] else []))"
    by (rule queueDownMigrations_eq[OF assms])
  show "appliedMigrs = [] \<or> limit = 0 \<Longrightarrow>
        queueDownMigrations m appliedMigrs limit = [Inl ErrNoChange]"
    by (simp add: queueDownMigrations_def)
qed (simp_all add: downRecord_fields)

theorem queueDownMigrations_enqueues_witness:
  "opens (sampleMigrate neverStop) (word_of_int 140) 135 \<and>
   opens (sampleMigrate neverStop) (word_of_int 135) 130 \<and>
   opens (sampleMigrate neverStop) (word_of_int 130) (- 1) \<and>
   stops_at (stop (sampleMigrate neverStop)) (length [140, 135, 130 :: int]) 3 \<and>
   queueDownMigrations (sampleMigrate neverStop) [140, 135, 130] 2 =
     [Inr (downRecord (sampleMigrate neverStop) (140, 135)),
      Inr (downRecord (sampleMigrate neverStop) (135, 130))]"
proof -
  have o: "opens (sampleMigrate neverStop) (word_of_int 140) 135"
    "opens (sampleMigrate neverStop) (word_of_int 135) 130"
    "opens (sampleMigrate neverStop) (word_of_int 130) (- 1)"
    by (simp_all add: sample_defs)
  then have h1: "\<forall>vt \<in> set (withNextOlder [140, 135, 130]).
      opens (sampleMigrate neverStop) (word_of_int (fst vt)) (snd vt)"
    by (simp add: withNextOlder_def)
  have h2: "stops_at (stop (sampleMigrate neverStop)) (length [140, 135, 130 :: int]) 3"
    by (simp add: sample_defs)
  from queueDownMigrations_enqueues[OF h1 h2, of 2]
  have "queueDownMigrations (sampleMigrate neverStop) [140, 135, 130] 2 =
     [Inr (downRecord (sampleMigrate neverStop) (140, 135)),
      Inr (downRecord (sampleMigrate neverStop) (135, 130))]"
    by (simp add: limited_def withNextOlder_def)
  with o h2 show ?thesis by (intro conjI)
qed

text \<open>
  C6, as claimed, fails: with three pending versions and the stop flag set at the first
  poll, both bulk pipelines enqueue no record and still send \<open>ErrNoChange\<close>; the
  same Up run without the stop flag enqueues the three records.
\<close>

theorem stop_flag_NoChange_counterexample:
  "queueUpMigrations (sampleMigrate alwaysStop) [] (- 1) = Some [Inl ErrNoChange] \<and>
   queueDownMigrations (sampleMigrate alwaysStop) [140, 135, 130] (- 1) = [Inl ErrNoChange] \<and>
   queueUpMigrations (sampleMigrate neverStop) [] (- 1) =
     Some [Inr (upRecord (sampleMigrate neverStop) 130),
           Inr (upRecord (sampleMigrate neverStop) 135),
           Inr (upRecord (sampleMigrate neverStop) 140)]"
proof (intro conjI)
  have s: "source_sequence (sourceDrv (sampleMigrate stp)) [130, 135, 140]" for stp
    by (simp add: sample_defs)
  have o: "\<forall>v \<in> set [130, 135, 140]. opens (sampleMigrate stp) v (sint v)" for stp
    by (simp add: sample_defs)
  have k0: "stops_at (stop (sampleMigrate alwaysStop)) (length [130, 135, 140 :: go_uint]) 0"
    by (simp add: sample_defs)
  have k3: "stops_at (stop (sampleMigrate neverStop)) (length [130, 135, 140 :: go_uint]) 3"
    by (simp add: sample_defs)
  show "queueUpMigrations (sampleMigrate alwaysStop) [] (- 1) = Some [Inl ErrNoChange]"
    using queueUpMigrations_eq[OF s o k0, of "[]" "- 1"] by (simp add: limited_def)
  show "queueUpMigrations (sampleMigrate neverStop) [] (- 1) =
     Some [Inr (upRecord (sampleMigrate neverStop) 130),
           Inr (upRecord (sampleMigrate neverStop) 135),
           Inr (upRecord (sampleMigrate neverStop) 140)]"
    using queueUpMigrations_eq[OF s o k3, of "[]" "- 1"] by (simp add: limited_def)
  have d: "\<forall>vt \<in> set (withNextOlder [140, 135, 130]).
      opens (sampleMigrate alwaysStop) (word_of_int (fst vt)) (snd vt)"
    by (simp add: sample_defs)
  have dk: "stops_at (stop (sampleMigrate alwaysStop)) (length [140, 135, 130 :: int]) 0"
    by (simp add: sample_defs)
  show "queueDownMigrations (sampleMigrate alwaysStop) [140, 135, 130] (- 1) = [Inl ErrNoChange]"
    using queueDownMigrations_eq[OF d dk, of "- 1"] by (simp add: limited_def)
qed

text \<open>
  C6, amended. Over a source sequence whose content opens, and whatever the stop flag
  does: when a bulk pipeline has enqueued no record, \<open>ErrNoChange\<close> is the one value
  it sends before closing the channel (also when the cause is the stop flag); when it
  has enqueued a record, it sends the records and no \<open>ErrNoChange\<close>.
\<close>

theorem bulk_pipelines_NoChange:
  "(source_sequence (sourceDrv m) vs \<and> (\<forall>v \<in> set vs. opens m v (sint v)) \<longrightarrow>
      (\<exists>out. queueUpMigrations m applied limit = Some out \<and>
         (records out = [] \<longrightarrow> out = [Inl ErrNoChange]) \<and>
         (records out \<noteq> [] \<longrightarrow> out = map Inr (records out)))) \<and>
   ((\<forall>vt \<in> set (withNextOlder appliedDesc). opens m (word_of_int (fst vt)) (snd vt)) \<longrightarrow>
      (records (queueDownMigrations m appliedDesc limit) = [] \<longrightarrow>
         queueDownMigrations m appliedDesc limit = [Inl ErrNoChange]) \<and>
      (records (queueDownMigrations m appliedDesc limit) \<noteq> [] \<longrightarrow>
         queueDownMigrations m appliedDesc limit =
           map Inr (records (queueDownMigrations m appliedDesc limit))))"
proof (intro conjI impI)
  assume a: "source_sequence (sourceDrv m) vs \<and> (\<forall>v \<in> set vs. opens m v (sint v))"
  obtain k where k: "stops_at (stop m) (length vs) k" using stops_at_exists by blast
  define recs where "recs = map (upRecord m)
      (limited limit (filter (\<lambda>v. sint v \<notin> set applied) (take k vs)))"
  define out where "out = map Inr recs @ (if recs = [] then [Inl ErrNoChange] else [])"
  from a have a1: "source_sequence (sourceDrv m) vs" and a2: "\<forall>v \<in> set vs. opens m v (sint v)"
    by simp_all
  have q: "queueUpMigrations m applied limit = Some out"
    unfolding out_def recs_def using queueUpMigrations_eq[OF a1 a2 k, of applied limit]
    by (simp add: Let_def)
  have r: "records out = recs" by (simp add: out_def)
  have "(records out = [] \<longrightarrow> out = [Inl ErrNoChange]) \<and>
        (records out \<noteq> [] \<longrightarrow> out = map Inr (records out))"
    unfolding r by (simp add: out_def)
  with q show "\<exists>out. queueUpMigrations m applied limit = Some out \<and>
         (records out = [] \<longrightarrow> out = [Inl ErrNoChange]) \<and>
         (records out \<noteq> [] \<longrightarrow> out = map Inr (records out))"
    by blast
next
  assume a: "\<forall>vt \<in> set (withNextOlder appliedDesc). opens m (word_of_int (fst vt)) (snd vt)"
  obtain k where k: "stops_at (stop m) (length appliedDesc) k" using stops_at_exists by blast
  define recs where "recs = map (downRecord m) (limited limit (take k (withNextOlder appliedDesc)))"
  have q: "queueDownMigrations m appliedDesc limit =
      map Inr recs @ (if recs = [] then [Inl ErrNoChange] else [])"
    unfolding recs_def using queueDownMigrations_eq[OF a k] by (simp add: Let_def)
  have r: "records (queueDownMigrations m appliedDesc limit) = recs" by (simp add: q)
  show "records (queueDownMigrations m appliedDesc limit) = [] \<Longrightarrow>
         queueDownMigrations m appliedDesc limit = [Inl ErrNoChange]"
    unfolding r by (simp add: q)
  show "records (queueDownMigrations m appliedDesc limit) \<noteq> [] \<Longrightarrow>
         queueDownMigrations m appliedDesc limit =
           map Inr (records (queueDownMigrations m appliedDesc limit))"
    unfolding r by (simp add: q)
qed

theorem bulk_pipelines_NoChange_witness:
  "source_sequence (sourceDrv (sampleMigrate alwaysStop)) [130, 135, 140] \<and>
   opens (sampleMigrate alwaysStop) 130 (sint (130 :: go_uint)) \<and>
   opens (sampleMigrate alwaysStop) 135 (sint (135 :: go_uint)) \<and>
   opens (sampleMigrate alwaysStop) 140 (sint (140 :: go_uint)) \<and>
   (\<exists>out. queueUpMigrations (sampleMigrate alwaysStop) [] (- 1) = Some out \<and>
      records out = [] \<and> out = [Inl ErrNoChange]) \<and>
   opens (sampleMigrate alwaysStop) (word_of_int 140) 135 \<and>
   opens (sampleMigrate alwaysStop) (word_of_int 135) 130 \<and>
   opens (sampleMigrate alwaysStop) (word_of_int 130) (- 1) \<and>
   records (queueDownMigrations (sampleMigrate alwaysStop) [140, 135, 130] (- 1)) = [] \<and>
   queueDownMigrations (sampleMigrate alwaysStop) [140, 135, 130] (- 1) = [Inl ErrNoChange]"
proof -
  have h1: "source_sequence (sourceDrv (sampleMigrate alwaysStop)) [130, 135, 140]"
    by (simp add: sample_defs)
  have o: "opens (sampleMigrate alwaysStop) 130 (sint (130 :: go_uint))"
    "opens (sampleMigrate alwaysStop) 135 (sint (135 :: go_uint))"
    "opens (sampleMigrate alwaysStop) 140 (sint (140 :: go_uint))"
    by (simp_all add: sample_defs)
  then have h2: "\<forall>v \<in> set [130, 135, 140]. opens (sampleMigrate alwaysStop) v (sint v)"
    by simp
  have d: "opens (sampleMigrate alwaysStop) (word_of_int 140) 135"
    "opens (sampleMigrate alwaysStop) (word_of_int 135) 130"
    "opens (sampleMigrate alwaysStop) (word_of_int 130) (- 1)"
    by (simp_all add: sample_defs)
  then have h3: "\<forall>vt \<in> set (withNextOlder [140, 135, 130]).
      opens (sampleMigrate alwaysStop) (word_of_int (fst vt)) (snd vt)"
    by (simp add: withNextOlder_def)
  have k0: "stops_at (stop (sampleMigrate alwaysStop)) (length [130, 135, 140 :: go_uint]) 0"
    by (simp add: sample_defs)
  have dk: "stops_at (stop (sampleMigrate alwaysStop)) (length [140, 135, 130 :: int]) 0"
    by (simp add: sample_defs)
  have up: "queueUpMigrations (sampleMigrate alwaysStop) [] (- 1) = Some [Inl ErrNoChange]"
    using queueUpMigrations_eq[OF h1 h2 k0, of "[]" "- 1"] by (simp add: limited_def)
  have dn: "records (queueDownMigrations (sampleMigrate alwaysStop) [140, 135, 130] (- 1)) = []"
    using queueDownMigrations_eq[OF h3 dk, of "- 1"] by (simp add: limited_def)
  note t = bulk_pipelines_NoChange[of "sampleMigrate alwaysStop" "[130, 135, 140]" "[]" "- 1"
      "[140, 135, 130]"]
  from t h1 h2 obtain out where out:
    "queueUpMigrations (sampleMigrate alwaysStop) [] (- 1) = Some out"
    "records out = [] \<longrightarrow> out = [Inl ErrNoChange]"
    by blast
  from out(1) up have "out = [Inl ErrNoChange]" by simp
  with out(1) have e: "\<exists>out. queueUpMigrations (sampleMigrate alwaysStop) [] (- 1) = Some out \<and>
      records out = [] \<and> out = [Inl ErrNoChange]"
    by simp
  from t h3 dn have
    "queueDownMigrations (sampleMigrate alwaysStop) [140, 135, 130] (- 1) = [Inl ErrNoChange]"
    by blast
  with h1 o e d dn show ?thesis by (intro conjI)
qed

section \<open>Properties of the single-version operations\<close>

lemma traced_fields [simp]:
  "lock (traced m) (s, log) = (case lock m s of (r, s') \<Rightarrow> (r, (s', log)))"
  "unlockErr (traced m) e (s, log) = (case unlockErr m e s of (r, s') \<Rightarrow> (r, (s', log)))"
  "extended (databaseDrv (traced m)) = map_option traced_extended (extended (databaseDrv m))"
  "IsMigrationApplied (traced_extended ed) v (s, log) = IsMigrationApplied ed v s"
  by (simp_all add: traced_def unlogged_def traced_driver_def traced_extended_def)

text \<open>
  C7. Once the lock is held (and the release hands the error through),
  \<open>DoMigration(v)\<close> and \<open>UndoMigration(v)\<close> on a driver that is not an
  \<open>ExtendedDriver\<close> return the error "driver type is not right" with no driver call
  made: nothing is queued, nothing is executed. On an \<open>ExtendedDriver\<close>,
  \<open>DoMigration(v)\<close> returns \<open>ErrNoChange\<close> when \<open>IsMigrationApplied(v)\<close> is true,
  and \<open>UndoMigration(v)\<close> returns \<open>ErrNoChange\<close> when it is false, again with no
  driver call made, so without \<open>Run\<close>.
\<close>

theorem single_version_guards:
  assumes "lock m s = (None, s1)"
    and "\<forall>e. unlockErr m e s1 = (e, s2)"
  shows "(extended (databaseDrv m) = None \<longrightarrow>
            DoMigration (traced m) v (s, log) =
              (Some (ErrorString ''driver type is not right''), (s2, log)) \<and>
            UndoMigration (traced m) v (s, log) =
              (Some (ErrorString ''driver type is not right''), (s2, log))) \<and>
         (\<forall>ed. extended (databaseDrv m) = Some ed \<and> IsMigrationApplied ed v s1 = (True, None) \<longrightarrow>
            DoMigration (traced m) v (s, log) = (Some ErrNoChange, (s2, log))) \<and>
         (\<forall>ed. extended (databaseDrv m) = Some ed \<and> IsMigrationApplied ed v s1 = (False, None) \<longrightarrow>
            UndoMigration (traced m) v (s, log) = (Some ErrNoChange, (s2, log)))"
  using assms by (auto simp: DoMigration_def UndoMigration_def)


lemmas single_defs = sampleMigrate_def pgMigrate_def basicMigrate_def basicDriver_def
  PostgresExtras_def PostgresExtras_IsMigrationApplied_def query_result_def nextFault_def
  appliedHistory_def neverStop_def alwaysStop_def listSource_def opens_def failingPrev_def
  wrappedPrev_def

theorem single_version_guards_witness:
  "lock basicMigrate (0, False) = (None, (0, False)) \<and>
   (\<forall>e. unlockErr basicMigrate e (0, False) = (e, (0, False))) \<and>
   extended (databaseDrv basicMigrate) = None \<and>
   DoMigration (traced basicMigrate) 135 ((0, False), []) =
     (Some (ErrorString ''driver type is not right''), ((0, False), [])) \<and>
   UndoMigration (traced basicMigrate) 135 ((0, False), []) =
     (Some (ErrorString ''driver type is not right''), ((0, False), [])) \<and>
   lock (sampleMigrate neverStop) appliedHistory = (None, appliedHistory) \<and>
   (\<forall>e. unlockErr (sampleMigrate neverStop) e appliedHistory = (e, appliedHistory)) \<and>
   extended (databaseDrv (sampleMigrate neverStop)) =
     Some (the (extended (databaseDrv (sampleMigrate neverStop)))) \<and>
   IsMigrationApplied (the (extended (databaseDrv (sampleMigrate neverStop)))) 135 appliedHistory =
     (True, None) \<and>
   DoMigration (traced (sampleMigrate neverStop)) 135 (appliedHistory, []) =
     (Some ErrNoChange, (appliedHistory, [])) \<and>
   IsMigrationApplied (the (extended (databaseDrv (sampleMigrate neverStop)))) 130 appliedHistory =
     (False, None) \<and>
   UndoMigration (traced (sampleMigrate neverStop)) 130 (appliedHistory, []) =
     (Some ErrNoChange, (appliedHistory, []))"
proof -
  have b1: "lock basicMigrate (0, False) = (None, (0, False))" by (simp add: single_defs)
  have b2: "\<forall>e. unlockErr basicMigrate e (0, False) = (e, (0, False))" by (simp add: single_defs)
  have b3: "extended (databaseDrv basicMigrate) = None" by (simp add: single_defs)
  note tb = single_version_guards[OF b1 b2, of 135 "[]"]
  from tb b3 have cb: "DoMigration (traced basicMigrate) 135 ((0, False), []) =
     (Some (ErrorString ''driver type is not right''), ((0, False), []))"
    "UndoMigration (traced basicMigrate) 135 ((0, False), []) =
     (Some (ErrorString ''driver type is not right''), ((0, False), []))"
    by simp_all
  let ?S = "sampleMigrate neverStop"
  have p1: "lock ?S appliedHistory = (None, appliedHistory)" by (simp add: single_defs)
  have p2: "\<forall>e. unlockErr ?S e appliedHistory = (e, appliedHistory)" by (simp add: single_defs)
  have p3: "extended (databaseDrv ?S) = Some (the (extended (databaseDrv ?S)))"
    by (simp add: single_defs)
  have p4: "IsMigrationApplied (the (extended (databaseDrv ?S))) 135 appliedHistory = (True, None)"
    by (simp add: single_defs)
  have p5: "IsMigrationApplied (the (extended (databaseDrv ?S))) 130 appliedHistory = (False, None)"
    by (simp add: single_defs)
  from single_version_guards[OF p1 p2, of 135 "[]"] p3 p4
  have c1: "DoMigration (traced ?S) 135 (appliedHistory, []) = (Some ErrNoChange, (appliedHistory, []))"
    by blast
  from single_version_guards[OF p1 p2, of 130 "[]"] p3 p5
  have c2: "UndoMigration (traced ?S) 130 (appliedHistory, []) = (Some ErrNoChange, (appliedHistory, []))"
    by blast
  from b1 b2 b3 cb p1 p2 p3 p4 c1 p5 c2 show ?thesis by (intro conjI)
qed

text \<open>
  C8, as claimed, fails: version 135 is in the source and has the predecessor 130, and
  with the stop flag set \<open>queueDownSingleMigration\<close> closes the channel without
  enqueueing a record.
\<close>

theorem queueDownSingleMigration_stop_counterexample:
  "versionExists (sampleMigrate alwaysStop) 135 = None \<and>
   Prev (sourceDrv (sampleMigrate alwaysStop)) 135 = Inr 130 \<and>
   queueDownSingleMigration (sampleMigrate alwaysStop) 135 = []"
  by (simp add: queueDownSingleMigration_def single_defs)

text \<open>
  C8, amended. \<open>queueDownSingleMigration\<close> sends the error of \<open>versionExists\<close> when the
  version is absent from the source; otherwise nothing when the stop flag is set;
  otherwise, when the content opens, exactly one Down record whose target version is
  the result of \<open>Prev(v)\<close>, or \<open>-1\<close> when \<open>Prev(v)\<close> reports NotFound; and an error of
  \<open>Prev\<close> that is not NotFound is sent instead of a record.
\<close>

theorem queueDownSingleMigration_record:
  "(versionExists m v = Some err \<longrightarrow> queueDownSingleMigration m v = [Inl err]) \<and>
   (versionExists m v = None \<and> stop m 0 \<longrightarrow> queueDownSingleMigration m v = []) \<and>
   (versionExists m v = None \<and> \<not> stop m 0 \<and> Prev (sourceDrv m) v = Inr prev \<and>
      opens m v (sint prev) \<longrightarrow>
      queueDownSingleMigration m v = [Inr (migrationRecord m False v (sint prev))]) \<and>
   (versionExists m v = None \<and> \<not> stop m 0 \<and> Prev (sourceDrv m) v = Inl perr \<and>
      errors_Is perr ErrNotExist \<and> opens m v (- 1) \<longrightarrow>
      queueDownSingleMigration m v = [Inr (migrationRecord m False v (- 1))]) \<and>
   (versionExists m v = None \<and> \<not> stop m 0 \<and> Prev (sourceDrv m) v = Inl perr \<and>
      \<not> errors_Is perr ErrNotExist \<longrightarrow>
      queueDownSingleMigration m v = [Inl perr]) \<and>
   (\<forall>t. Version (migrationRecord m False v t) = v \<and>
        TargetVersion (migrationRecord m False v t) = t \<and>
        \<not> UpKindMigration (migrationRecord m False v t))"
  by (auto simp: queueDownSingleMigration_def newMigration_opens migrationRecord_def Let_def)


theorem queueDownSingleMigration_record_witness:
  "versionExists (sampleMigrate neverStop) 135 = None \<and>
   \<not> stop (sampleMigrate neverStop) 0 \<and>
   Prev (sourceDrv (sampleMigrate neverStop)) 135 = Inr 130 \<and>
   opens (sampleMigrate neverStop) 135 (sint (130 :: go_uint)) \<and>
   queueDownSingleMigration (sampleMigrate neverStop) 135 =
     [Inr (migrationRecord (sampleMigrate neverStop) False 135 130)] \<and>
   versionExists (sampleMigrate neverStop) 130 = None \<and>
   Prev (sourceDrv (sampleMigrate neverStop)) 130 = Inl ErrNotExist \<and>
   errors_Is ErrNotExist ErrNotExist \<and>
   opens (sampleMigrate neverStop) 130 (- 1) \<and>
   queueDownSingleMigration (sampleMigrate neverStop) 130 =
     [Inr (migrationRecord (sampleMigrate neverStop) False 130 (- 1))] \<and>
   versionExists (sampleMigrate neverStop) 999 =
     Some (Errorf ''no migration found for version %d: %w'' 999 ErrNotExist) \<and>
   queueDownSingleMigration (sampleMigrate neverStop) 999 =
     [Inl (Errorf ''no migration found for version %d: %w'' 999 ErrNotExist)] \<and>
   versionExists (sampleMigrate alwaysStop) 135 = None \<and>
   stop (sampleMigrate alwaysStop) 0 \<and>
   queueDownSingleMigration (sampleMigrate alwaysStop) 135 = [] \<and>
   versionExists failingPrev 135 = None \<and>
   \<not> stop failingPrev 0 \<and>
   Prev (sourceDrv failingPrev) 135 = Inl (ErrorString ''read timeout'') \<and>
   \<not> errors_Is (ErrorString ''read timeout'') ErrNotExist \<and>
   queueDownSingleMigration failingPrev 135 = [Inl (ErrorString ''read timeout'')] \<and>
   versionExists wrappedPrev 135 = None \<and>
   \<not> stop wrappedPrev 0 \<and>
   Prev (sourceDrv wrappedPrev) 135 = Inl (MultiError ErrNotExist (ErrorString ''close failed'')) \<and>
   errors_Is (MultiError ErrNotExist (ErrorString ''close failed'')) ErrNotExist \<and>
   opens wrappedPrev 135 (- 1) \<and>
   queueDownSingleMigration wrappedPrev 135 = [Inr (migrationRecord wrappedPrev False 135 (- 1))]"
proof -
  let ?S = "sampleMigrate neverStop"
  have a: "versionExists ?S 135 = None" "\<not> stop ?S 0" "Prev (sourceDrv ?S) 135 = Inr 130"
    "opens ?S 135 (sint (130 :: go_uint))"
    by (simp_all add: single_defs)
  from queueDownSingleMigration_record[of ?S 135 _ 130] a
  have ca: "queueDownSingleMigration ?S 135 = [Inr (migrationRecord ?S False 135 130)]"
    by simp
  have b: "versionExists ?S 130 = None" "Prev (sourceDrv ?S) 130 = Inl ErrNotExist"
    "errors_Is ErrNotExist ErrNotExist" "opens ?S 130 (- 1)"
    by (simp_all add: single_defs)
  from queueDownSingleMigration_record[of ?S 130 _ _ ErrNotExist] a(2) b
  have cb: "queueDownSingleMigration ?S 130 = [Inr (migrationRecord ?S False 130 (- 1))]"
    by simp
  have c: "versionExists ?S 999 = Some (Errorf ''no migration found for version %d: %w'' 999 ErrNotExist)"
    by (simp add: single_defs)
  from queueDownSingleMigration_record[of ?S 999 "Errorf ''no migration found for version %d: %w'' 999 ErrNotExist"] c
  have cc: "queueDownSingleMigration ?S 999 =
     [Inl (Errorf ''no migration found for version %d: %w'' 999 ErrNotExist)]"
    by simp
  have d: "versionExists (sampleMigrate alwaysStop) 135 = None" "stop (sampleMigrate alwaysStop) 0"
    by (simp_all add: single_defs)
  from queueDownSingleMigration_record[of "sampleMigrate alwaysStop" 135] d
  have cd: "queueDownSingleMigration (sampleMigrate alwaysStop) 135 = []"
    by simp
  have e: "versionExists failingPrev 135 = None" "\<not> stop failingPrev 0"
    "Prev (sourceDrv failingPrev) 135 = Inl (ErrorString ''read timeout'')"
    "\<not> errors_Is (ErrorString ''read timeout'') ErrNotExist"
    by (simp_all add: single_defs)
  from queueDownSingleMigration_record[of failingPrev 135 _ _ "ErrorString ''read timeout''"] e
  have ce: "queueDownSingleMigration failingPrev 135 = [Inl (ErrorString ''read timeout'')]"
    by simp
  have f: "versionExists wrappedPrev 135 = None" "\<not> stop wrappedPrev 0"
    "Prev (sourceDrv wrappedPrev) 135 = Inl (MultiError ErrNotExist (ErrorString ''close failed''))"
    "errors_Is (MultiError ErrNotExist (ErrorString ''close failed'')) ErrNotExist"
    "opens wrappedPrev 135 (- 1)"
    by (simp_all add: single_defs)
  from queueDownSingleMigration_record[of wrappedPrev 135 _ _
      "MultiError ErrNotExist (ErrorString ''close failed'')"] f
  have cf: "queueDownSingleMigration wrappedPrev 135 = [Inr (migrationRecord wrappedPrev False 135 (- 1))]"
    by simp
  from a ca b cb c cc d cd e ce f cf show ?thesis by (intro conjI)
qed

section \<open>Properties of the Postgres extended driver\<close>

lemma query_result_ok:
  assumes "query_result p sel = Inr x"
  obtains rows where "migrationsTable p = Some rows" "sel rows = Inr x"
  using assms by (auto simp: query_result_def split: option.splits fault.splits)

lemma strictly_descending:
  assumes "distinct xs"
  shows "sorted_wrt (>) (rev (sort (xs :: int list)))"
proof -
  have "sorted_wrt (<) (sort xs)"
    using assms by (simp add: strict_sorted_iff)
  then have "sorted_wrt (\<lambda>x y. y < x) (rev (sort xs))"
    by (simp add: sorted_wrt_rev)
  then show ?thesis by simp
qed


text \<open>
  C9. On a migrations table with one row per version, a successful
  \<open>GetAllAppliedMigrations\<close> returns the timestamps of the table, each once, in
  strictly descending order; so for every element but the last, the target version
  the bulk-Down pipeline takes (\<open>appliedMigrs[i+1]\<close>) is the next older applied
  version.
\<close>

theorem GetAllAppliedMigrations_descending:
  assumes "oneRowPerVersion p"
    and "PostgresExtras_GetAllAppliedMigrations p = (vs, None)"
  shows "sorted_wrt (>) vs \<and>
     (\<exists>rows. migrationsTable p = Some rows \<and> set vs = set (map migration_timestamp rows) \<and>
        length vs = length rows) \<and>
     (\<forall>i. Suc i < length vs \<longrightarrow>
        withNextOlder vs ! i = (vs ! i, vs ! Suc i) \<and> vs ! Suc i < vs ! i)"
proof -
  from assms(2) have q: "query_result p (\<lambda>rows. Inr (rev (sort (map migration_timestamp rows)))) = Inr vs"
    by (auto simp: PostgresExtras_GetAllAppliedMigrations_def split: sum.splits)
  then obtain rows where rows: "migrationsTable p = Some rows"
    "vs = rev (sort (map migration_timestamp rows))"
    by (elim query_result_ok) auto
  from assms(1) rows(1) have d: "distinct (map migration_timestamp rows)"
    by (simp add: oneRowPerVersion_def)
  have s: "sorted_wrt (>) vs" unfolding rows(2) by (rule strictly_descending[OF d])
  have e: "set vs = set (map migration_timestamp rows)" "length vs = length rows"
    by (simp_all add: rows(2))
  have n: "withNextOlder vs ! i = (vs ! i, vs ! Suc i) \<and> vs ! Suc i < vs ! i" if "Suc i < length vs" for i
  proof -
    from that have "i < length vs" "i \<noteq> length vs - 1" by auto
    then have "withNextOlder vs ! i = (vs ! i, vs ! Suc i)" by (simp add: withNextOlder_nth)
    moreover have "vs ! Suc i < vs ! i"
      using s that by (simp add: sorted_wrt_iff_nth_less)
    ultimately show ?thesis by simp
  qed
  from s rows(1) e n show ?thesis by blast
qed

theorem GetAllAppliedMigrations_descending_witness:
  "oneRowPerVersion threeApplied \<and>
   PostgresExtras_GetAllAppliedMigrations threeApplied = ([140, 135, 130], None) \<and>
   sorted_wrt (>) [140, 135, 130 :: int] \<and>
   withNextOlder [140, 135, 130] ! 0 = (140, 135) \<and>
   withNextOlder [140, 135, 130] ! 1 = (135, 130)"
proof -
  have h1: "oneRowPerVersion threeApplied"
    by (simp add: oneRowPerVersion_def threeApplied_def)
  have h2: "PostgresExtras_GetAllAppliedMigrations threeApplied = ([140, 135, 130], None)"
    by (simp add: PostgresExtras_GetAllAppliedMigrations_def query_result_def nextFault_def
        threeApplied_def)
  note t = GetAllAppliedMigrations_descending[OF h1 h2]
  from t have c1: "sorted_wrt (>) [140, 135, 130 :: int]" by (rule conjunct1)
  from t have "\<forall>i. Suc i < length [140, 135, 130 :: int] \<longrightarrow>
        withNextOlder [140, 135, 130] ! i = ([140, 135, 130] ! i, [140, 135, 130] ! Suc i) \<and>
        [140, 135, 130 :: int] ! Suc i < [140, 135, 130] ! i"
    by (elim conjE)
  then have c2: "withNextOlder [140, 135, 130] ! 0 = (140, 135)"
    and c3: "withNextOlder [140, 135, 130] ! 1 = (135, 130)"
    by (simp_all add: withNextOlder_def)
  from h1 h2 c1 c2 c3 show ?thesis by (intro conjI)
qed


text \<open>
  C10. \<open>IsMigrationApplied(v)\<close> returns \<open>(false, nil)\<close> and \<open>IsDatabaseDirty()\<close>
  returns \<open>(0, false, nil)\<close> when the migrations table does not exist, and when the
  query reports \<open>sql.ErrNoRows\<close> or the \<open>pq\<close> error \<open>undefined_table\<close>;
  \<open>IsDatabaseDirty()\<close> also returns \<open>(0, false, nil)\<close> when the table has no row
  with \<open>dirty = true\<close>.
\<close>

theorem fresh_database_not_applied_not_dirty:
  "(migrationsTable p = None \<and> (\<forall>e. nextFault p \<noteq> Some (QueryFails e)) \<longrightarrow>
      PostgresExtras_IsMigrationApplied v p = (False, None) \<and>
      Postgres_IsDatabaseDirty p = (0, False, None)) \<and>
   (nextFault p = Some (QueryFails ErrNoRows) \<or>
    nextFault p = Some (QueryFails (PqError ''undefined_table'')) \<longrightarrow>
      PostgresExtras_IsMigrationApplied v p = (False, None) \<and>
      Postgres_IsDatabaseDirty p = (0, False, None)) \<and>
   (migrationsTable p = Some rows \<and> filter dirty rows = [] \<and>
    (\<forall>e. nextFault p \<noteq> Some (QueryFails e)) \<longrightarrow>
      Postgres_IsDatabaseDirty p = (0, False, None))"
  by (auto simp: PostgresExtras_IsMigrationApplied_def Postgres_IsDatabaseDirty_def
      query_result_def split: option.splits fault.splits)

theorem fresh_database_not_applied_not_dirty_witness:
  "migrationsTable noTable = None \<and>
   (\<forall>e. nextFault noTable \<noteq> Some (QueryFails e)) \<and>
   PostgresExtras_IsMigrationApplied 130 noTable = (False, None) \<and>
   Postgres_IsDatabaseDirty noTable = (0, False, None) \<and>
   nextFault noRowsReply = Some (QueryFails ErrNoRows) \<and>
   PostgresExtras_IsMigrationApplied 130 noRowsReply = (False, None) \<and>
   Postgres_IsDatabaseDirty noRowsReply = (0, False, None) \<and>
   migrationsTable emptyHistory = Some [] \<and>
   filter dirty [] = [] \<and>
   (\<forall>e. nextFault emptyHistory \<noteq> Some (QueryFails e)) \<and>
   Postgres_IsDatabaseDirty emptyHistory = (0, False, None)"
proof -
  have a: "migrationsTable noTable = None" "\<forall>e. nextFault noTable \<noteq> Some (QueryFails e)"
    by (simp_all add: noTable_def nextFault_def)
  from fresh_database_not_applied_not_dirty[of noTable 130] a
  have ca: "PostgresExtras_IsMigrationApplied 130 noTable = (False, None)"
    "Postgres_IsDatabaseDirty noTable = (0, False, None)"
    by simp_all
  have b: "nextFault noRowsReply = Some (QueryFails ErrNoRows)"
    by (simp add: noRowsReply_def nextFault_def)
  from fresh_database_not_applied_not_dirty[of noRowsReply 130] b
  have cb: "PostgresExtras_IsMigrationApplied 130 noRowsReply = (False, None)"
    "Postgres_IsDatabaseDirty noRowsReply = (0, False, None)"
    by simp_all
  have c: "migrationsTable emptyHistory = Some []" "filter dirty [] = []"
    "\<forall>e. nextFault emptyHistory \<noteq> Some (QueryFails e)"
    by (simp_all add: emptyHistory_def nextFault_def)
  from fresh_database_not_applied_not_dirty[of emptyHistory 130 "[]"] c
  have cc: "Postgres_IsDatabaseDirty emptyHistory = (0, False, None)"
    by simp
  from a ca b cb c cc show ?thesis by (intro conjI)
qed

section \<open>The dirty marker across records\<close>

text \<open>
  One run of the consumer loop on the Postgres extended driver, started on a table
  with one row per version and no dirty row, with a \<open>Run\<close> that does not write to the
  table: after every driver call at most one row is dirty, the row of the record being
  executed, and no row is dirty after a record that returns nil.
\<close>

lemma same_key_distinct:
  assumes "distinct (map f xs)" "list_all (\<lambda>x. f x = v) xs"
  shows "length xs \<le> 1"
proof (cases xs)
  case Nil
  then show ?thesis by simp
next
  case (Cons a as)
  show ?thesis
  proof (cases as)
    case Nil
    with Cons show ?thesis by simp
  next
    case (Cons b bs)
    with \<open>xs = a # as\<close> assms show ?thesis by auto
  qed
qed

lemma onlyDirty_atMostOne:
  assumes "onlyDirty v p"
  shows "atMostOneDirty p"
proof (cases "migrationsTable p")
  case None
  then show ?thesis by (simp add: atMostOneDirty_def dirtyRows_def)
next
  case (Some rows)
  with assms have "distinct (map migration_timestamp rows)"
    and a: "list_all (\<lambda>r. migration_timestamp r = v) (filter dirty rows)"
    by (simp_all add: onlyDirty_def oneRowPerVersion_def dirtyRows_def)
  then have "distinct (map migration_timestamp (filter dirty rows))"
    by (simp add: distinct_map_filter)
  from same_key_distinct[OF this a] Some show ?thesis
    by (simp add: atMostOneDirty_def dirtyRows_def)
qed

lemma clean_onlyDirty:
  "oneRowPerVersion p \<Longrightarrow> dirtyRows p = [] \<Longrightarrow> onlyDirty v p"
  by (simp add: onlyDirty_def)

lemma onlyDirty_table_cong:
  "migrationsTable q = migrationsTable p \<Longrightarrow> onlyDirty v q = onlyDirty v p"
  by (simp add: onlyDirty_def oneRowPerVersion_def dirtyRows_def)

lemma sql_insert_onlyDirty:
  assumes "onlyDirty v p" "sql_insert v (migrationsTable p) = Inr rows"
  shows "onlyDirty v (advance (p\<lparr>migrationsTable := Some rows\<rparr>))"
  using assms
  by (auto simp: onlyDirty_def oneRowPerVersion_def dirtyRows_def sql_insert_def advance_def
      split: option.splits if_splits)

lemma update_keeps_timestamps:
  "map migration_timestamp (map (\<lambda>r. if migration_timestamp r = v then r\<lparr>dirty := d\<rparr> else r) rows)
     = map migration_timestamp rows"
  by (induction rows) auto

lemma sql_update_onlyDirty:
  assumes "onlyDirty v p" "sql_update_dirty d v (migrationsTable p) = Inr rows"
  shows "onlyDirty v (advance (p\<lparr>migrationsTable := Some rows\<rparr>))"
proof -
  from assms(2) obtain rows0 where r0: "migrationsTable p = Some rows0"
    "rows = map (\<lambda>r. if migration_timestamp r = v then r\<lparr>dirty := d\<rparr> else r) rows0"
    by (auto simp: sql_update_dirty_def split: option.splits)
  from assms(1) r0(1) have d0: "distinct (map migration_timestamp rows0)"
    and a0: "\<forall>r \<in> set rows0. dirty r \<longrightarrow> migration_timestamp r = v"
    by (auto simp: onlyDirty_def oneRowPerVersion_def dirtyRows_def list_all_iff)
  have "map migration_timestamp rows = map migration_timestamp rows0"
    unfolding r0(2) by (rule update_keeps_timestamps)
  with d0 have d: "distinct (map migration_timestamp rows)" by simp
  have a: "\<forall>r \<in> set rows. dirty r \<longrightarrow> migration_timestamp r = v"
    unfolding r0(2) using a0 by auto
  from d a show ?thesis
    by (simp add: onlyDirty_def oneRowPerVersion_def dirtyRows_def advance_def list_all_iff)
qed

lemma sql_delete_onlyDirty:
  assumes "onlyDirty v p" "sql_delete w (migrationsTable p) = Inr rows"
  shows "onlyDirty v (advance (p\<lparr>migrationsTable := Some rows\<rparr>))"
  using assms
  by (auto simp: onlyDirty_def oneRowPerVersion_def dirtyRows_def sql_delete_def advance_def
      list_all_iff distinct_map_filter split: option.splits if_splits)



lemma onlyDirty_advance [simp]: "onlyDirty v (advance p) = onlyDirty v p"
  by (simp add: onlyDirty_def oneRowPerVersion_def dirtyRows_def)

lemma inTransaction_onlyDirty:
  assumes "onlyDirty v p"
    and "\<And>rows. stmt (migrationsTable p) = Inr rows \<Longrightarrow>
           onlyDirty v (advance (p\<lparr>migrationsTable := Some rows\<rparr>))"
  shows "onlyDirty v (snd (inTransaction bm q cm stmt p))"
proof -
  obtain r p' where t: "inTransaction bm q cm stmt p = (r, p')" by (metis prod.exhaust)
  from inTransaction_result[OF t] assms show ?thesis
    unfolding t by (auto simp: onlyDirty_advance)
qed

lemma AddDirtyMigration_onlyDirty:
  assumes "onlyDirty (sint w) p"
  shows "onlyDirty (sint w) (snd (PostgresExtras_AddDirtyMigration w p))"
  unfolding PostgresExtras_AddDirtyMigration_def
  using assms by (rule inTransaction_onlyDirty) (rule sql_insert_onlyDirty[OF assms])

lemma UpdateMigrationDirtyFlag_onlyDirty:
  assumes "onlyDirty (sint w) p"
  shows "onlyDirty (sint w) (snd (PostgresExtras_UpdateMigrationDirtyFlag w d p))"
  unfolding PostgresExtras_UpdateMigrationDirtyFlag_def
  using assms by (rule inTransaction_onlyDirty) (rule sql_update_onlyDirty[OF assms])

lemma RemoveMigration_onlyDirty:
  assumes "onlyDirty (sint w) p"
  shows "onlyDirty (sint w) (snd (PostgresExtras_RemoveMigration w p))"
  unfolding PostgresExtras_RemoveMigration_def
  using assms by (rule inTransaction_onlyDirty) (rule sql_delete_onlyDirty[OF assms])

lemma markDirty_pg_onlyDirty:
  assumes "onlyDirty (sint (Version migr)) p"
  shows "onlyDirty (sint (Version migr)) (snd (markDirty (PostgresExtras run sv) migr p))"
  using AddDirtyMigration_onlyDirty[OF assms] UpdateMigrationDirtyFlag_onlyDirty[OF assms, of True]
  by (simp add: markDirty_def PostgresExtras_def)

lemma markClean_pg_onlyDirty:
  assumes "onlyDirty (sint (Version migr)) p"
  shows "onlyDirty (sint (Version migr)) (snd (markClean (PostgresExtras run sv) migr p))"
  using RemoveMigration_onlyDirty[OF assms] UpdateMigrationDirtyFlag_onlyDirty[OF assms, of False]
  by (simp add: markClean_def PostgresExtras_def)

lemma runBody_pg_onlyDirty:
  assumes "keepsTable run" "onlyDirty v p"
  shows "onlyDirty v (snd (runBody (PostgresExtras run sv) migr p))"
  using assms(2) runBody_keepsTable[OF assms(1), of sv migr p]
  by (simp add: onlyDirty_def oneRowPerVersion_def dirtyRows_def)

lemma markClean_pg_clean:
  assumes od: "onlyDirty (sint (Version migr)) p"
    and ok: "fst (markClean (PostgresExtras run sv) migr p) = None"
  shows "dirtyRows (snd (markClean (PostgresExtras run sv) migr p)) = []"
proof (cases "UpKindMigration migr")
  case True
  obtain r p' where t: "PostgresExtras_UpdateMigrationDirtyFlag (Version migr) False p = (r, p')"
    by (metis prod.exhaust)
  with ok True have "r = None" by (simp add: markClean_def PostgresExtras_def)
  with inTransaction_result[OF t[unfolded PostgresExtras_UpdateMigrationDirtyFlag_def]]
  obtain rows where rows: "sql_update_dirty False (sint (Version migr)) (migrationsTable p) = Inr rows"
    "p' = advance (p\<lparr>migrationsTable := Some rows\<rparr>)" by auto
  from rows(1) od have "filter dirty rows = []"
    by (auto simp: sql_update_dirty_def onlyDirty_def dirtyRows_def list_all_iff filter_empty_conv
        split: option.splits)
  with rows(2) True t show ?thesis
    by (simp add: markClean_def PostgresExtras_def dirtyRows_def)
next
  case False
  obtain r p' where t: "PostgresExtras_RemoveMigration (Version migr) p = (r, p')"
    by (metis prod.exhaust)
  with ok False have "r = None" by (simp add: markClean_def PostgresExtras_def)
  with inTransaction_result[OF t[unfolded PostgresExtras_RemoveMigration_def]]
  obtain rows where rows: "sql_delete (sint (Version migr)) (migrationsTable p) = Inr rows"
    "p' = advance (p\<lparr>migrationsTable := Some rows\<rparr>)" by auto
  from rows(1) od have "filter dirty rows = []"
    by (auto simp: sql_delete_def onlyDirty_def dirtyRows_def list_all_iff filter_empty_conv
        split: option.splits)
  with rows(2) False t show ?thesis
    by (simp add: markClean_def PostgresExtras_def dirtyRows_def)
qed


lemma markDirty_sim:
  "\<exists>c cause. markDirty (traced_driver drv) migr (s, log) =
     (fst (markDirty drv migr s),
      (snd (markDirty drv migr s), log @ [(c, cause, snd (markDirty drv migr s))]))"
  by (auto simp: markDirty_def traced_driver_def traced_extended_def logged_def wrapErr_def
      split: option.splits prod.splits)

lemma markClean_sim:
  "\<exists>c cause. markClean (traced_driver drv) migr (s, log) =
     (fst (markClean drv migr s),
      (snd (markClean drv migr s), log @ [(c, cause, snd (markClean drv migr s))]))"
  by (auto simp: markClean_def traced_driver_def traced_extended_def logged_def wrapErr_def
      split: option.splits prod.splits)

lemma runBody_sim:
  "\<exists>evs. length evs \<le> 1 \<and> list_all (\<lambda>ev. snd (snd ev) = snd (runBody drv migr s)) evs \<and>
     runBody (traced_driver drv) migr (s, log) =
       (fst (runBody drv migr s), (snd (runBody drv migr s), log @ evs))"
proof (cases "Body migr")
  case None
  then show ?thesis by (intro exI[of _ "[]"]) (simp add: runBody_def)
next
  case (Some b)
  obtain r s' where rn: "Run drv (BufferedBody migr) s = (r, s')" by (metis prod.exhaust)
  with Some show ?thesis
    by (intro exI[of _ "[(CallRun (BufferedBody migr), r, s')]"])
       (auto simp: runBody_def traced_driver_def logged_def wrapErr_def split: option.splits)
qed

lemma executor_pg_invariant:
  assumes kt: "keepsTable run"
    and od: "onlyDirty (sint (Version migr)) p"
    and h: "handleSingleMigration (traced_driver (PostgresExtras run sv)) migr (p, log) = (r, (p', log'))"
  shows "\<exists>evs. log' = log @ evs \<and>
           list_all (\<lambda>ev. onlyDirty (sint (Version migr)) (snd (snd ev))) evs \<and>
           onlyDirty (sint (Version migr)) p' \<and> (r = None \<longrightarrow> dirtyRows p' = [])"
proof -
  let ?PG = "PostgresExtras run sv"
  let ?v = "sint (Version migr)"
  let ?p1 = "snd (markDirty ?PG migr p)"
  let ?p2 = "snd (runBody ?PG migr ?p1)"
  let ?p3 = "snd (markClean ?PG migr ?p2)"
  have o1: "onlyDirty ?v ?p1" by (rule markDirty_pg_onlyDirty[OF od])
  have o2: "onlyDirty ?v ?p2" by (rule runBody_pg_onlyDirty[OF kt o1])
  have o3: "onlyDirty ?v ?p3" by (rule markClean_pg_onlyDirty[OF o2])
  obtain c1 x1 where m1: "markDirty (traced_driver ?PG) migr (p, log) =
      (fst (markDirty ?PG migr p), (?p1, log @ [(c1, x1, ?p1)]))"
    using markDirty_sim[of "PostgresExtras run sv" migr p log] by auto
  show ?thesis
  proof (cases "fst (markDirty ?PG migr p)")
    case (Some e)
    with h m1 have "r = Some e" "p' = ?p1" "log' = log @ [(c1, x1, ?p1)]"
      by (auto simp: handleSingleMigration_def andThen_def)
    with o1 show ?thesis by simp
  next
    case None
    obtain evs where m2: "length evs \<le> 1"
      "list_all (\<lambda>ev. snd (snd ev) = ?p2) evs"
      "runBody (traced_driver ?PG) migr (?p1, log @ [(c1, x1, ?p1)]) =
         (fst (runBody ?PG migr ?p1), (?p2, (log @ [(c1, x1, ?p1)]) @ evs))"
      using runBody_sim[of "PostgresExtras run sv" migr ?p1 "log @ [(c1, x1, ?p1)]"] by auto
    from m2(2) o2 have e2: "list_all (\<lambda>ev. onlyDirty ?v (snd (snd ev))) evs"
      by (simp add: list_all_iff)
    show ?thesis
    proof (cases "fst (runBody ?PG migr ?p1)")
      case (Some e)
      with h m1 m2(3) None have "r = Some e" "p' = ?p2" "log' = log @ ((c1, x1, ?p1) # evs)"
        by (auto simp: handleSingleMigration_def andThen_def)
      with o1 o2 e2 show ?thesis by simp
    next
      case rn: None
      obtain c3 x3 where m3: "markClean (traced_driver ?PG) migr (?p2, (log @ [(c1, x1, ?p1)]) @ evs) =
          (fst (markClean ?PG migr ?p2), (?p3, ((log @ [(c1, x1, ?p1)]) @ evs) @ [(c3, x3, ?p3)]))"
        using markClean_sim[of "PostgresExtras run sv" migr ?p2 "(log @ [(c1, x1, ?p1)]) @ evs"] by auto
      from h m1 m2(3) m3 None rn have res: "r = fst (markClean ?PG migr ?p2)" "p' = ?p3"
        "log' = log @ ((c1, x1, ?p1) # evs @ [(c3, x3, ?p3)])"
        by (auto simp: handleSingleMigration_def andThen_def)
      have "r = None \<longrightarrow> dirtyRows p' = []"
        using res(1,2) markClean_pg_clean[OF o2] by simp
      with res o1 o3 e2 show ?thesis by simp
    qed
  qed
qed


lemma databaseDrv_traced [simp]: "databaseDrv (traced m) = traced_driver (databaseDrv m)"
  by (simp add: traced_def)

lemma runMigrations_pg_invariant:
  assumes kt: "keepsTable run" and drv: "databaseDrv m = PostgresExtras run sv"
  shows "oneRowPerVersion p \<Longrightarrow> dirtyRows p = [] \<Longrightarrow>
     runMigrations (traced m) ret (p, log) = (r, (p', log')) \<Longrightarrow>
     \<exists>evs. log' = log @ evs \<and> list_all (\<lambda>ev. atMostOneDirty (snd (snd ev))) evs \<and>
        atMostOneDirty p' \<and> (r = None \<longrightarrow> dirtyRows p' = [])"
proof (induction ret arbitrary: p log)
  case Nil
  then show ?case by (simp add: atMostOneDirty_def)
next
  case (Cons x ret)
  show ?case
  proof (cases x)
    case (Inl err)
    with Cons.prems show ?thesis by (simp add: atMostOneDirty_def)
  next
    case (Inr migr)
    let ?v = "sint (Version migr)"
    obtain r1 p1 log1 where h: "handleSingleMigration (traced_driver (PostgresExtras run sv)) migr (p, log)
        = (r1, (p1, log1))"
      by (metis prod.exhaust)
    have od: "onlyDirty ?v p" using Cons.prems(1,2) by (rule clean_onlyDirty)
    from executor_pg_invariant[OF kt od h] obtain evs1 where e1: "log1 = log @ evs1"
      "list_all (\<lambda>ev. onlyDirty ?v (snd (snd ev))) evs1" "onlyDirty ?v p1"
      "r1 = None \<longrightarrow> dirtyRows p1 = []"
      by blast
    from e1(2) have a1: "list_all (\<lambda>ev. atMostOneDirty (snd (snd ev))) evs1"
      by (auto simp: list_all_iff intro: onlyDirty_atMostOne)
    show ?thesis
    proof (cases r1)
      case (Some e)
      with Cons.prems(3) Inr h drv have "r = Some e" "p' = p1" "log' = log1"
        by (auto simp: andThen_def)
      with e1 a1 show ?thesis by (simp add: onlyDirty_atMostOne)
    next
      case None
      with Cons.prems(3) Inr h drv have rest: "runMigrations (traced m) ret (p1, log1) = (r, (p', log'))"
        by (auto simp: andThen_def)
      from None e1(3,4) have c1: "oneRowPerVersion p1" "dirtyRows p1 = []"
        by (simp_all add: onlyDirty_def)
      from Cons.IH[OF c1 rest] obtain evs2 where e2: "log' = log1 @ evs2"
        "list_all (\<lambda>ev. atMostOneDirty (snd (snd ev))) evs2" "atMostOneDirty p'"
        "r = None \<longrightarrow> dirtyRows p' = []"
        by blast
      with e1(1) a1 show ?thesis by (intro exI[of _ "evs1 @ evs2"]) simp
    qed
  qed
qed


lemma markDirty_pg_exactly_one:
  assumes "oneRowPerVersion p" "dirtyRows p = []"
    and "fst (markDirty (PostgresExtras run sv) migr p) = None"
    and "UpKindMigration migr \<or>
         (\<exists>rows. migrationsTable p = Some rows \<and> sint (Version migr) \<in> set (map migration_timestamp rows))"
  shows "dirtyRows (snd (markDirty (PostgresExtras run sv) migr p)) =
           [\<lparr>migration_timestamp = sint (Version migr), dirty = True\<rparr>]"
proof -
  let ?p1 = "snd (markDirty (PostgresExtras run sv) migr p)"
  let ?row = "\<lparr>migration_timestamp = sint (Version migr), dirty = True\<rparr>"
  have "onlyDirty (sint (Version migr)) ?p1"
    by (rule markDirty_pg_onlyDirty[OF clean_onlyDirty[OF assms(1,2)]])
  then have "length (dirtyRows ?p1) \<le> 1"
    using onlyDirty_atMostOne by (simp add: atMostOneDirty_def)
  moreover have "?row \<in> set (dirtyRows ?p1)" by (rule markDirty_pg_marks[OF assms(3,4)])
  ultimately show ?thesis by (cases "dirtyRows ?p1") auto
qed

text \<open>
  C5. The single-version operations break the invariant: they run the executor
  without asking the backend whether it is dirty. Starting from an empty history,
  \<open>DoMigration(135)\<close> fails in its script and leaves the row of 135 dirty, and
  \<open>IsDatabaseDirty()\<close> reports it; \<open>DoMigration(140)\<close> then runs the executor all
  the same and, failing too, leaves a second dirty row.
\<close>

theorem DoMigration_on_dirty_backend:
  "fst (DoMigration brokenMigrate 135 emptyHistory) \<noteq> None \<and>
   dirtyRows (snd (DoMigration brokenMigrate 135 emptyHistory)) =
     [\<lparr>migration_timestamp = 135, dirty = True\<rparr>] \<and>
   Postgres_IsDatabaseDirty (snd (DoMigration brokenMigrate 135 emptyHistory)) = (135, True, None) \<and>
   dirtyRows (snd (DoMigration brokenMigrate 140 (snd (DoMigration brokenMigrate 135 emptyHistory)))) =
     [\<lparr>migration_timestamp = 135, dirty = True\<rparr>, \<lparr>migration_timestamp = 140, dirty = True\<rparr>] \<and>
   \<not> atMostOneDirty
       (snd (DoMigration brokenMigrate 140 (snd (DoMigration brokenMigrate 135 emptyHistory))))"
  by (simp add: DoMigration_def brokenMigrate_def pgMigrate_def queueUpSingleMigration_def
      newMigration_def run_defs PostgresExtras_IsMigrationApplied_def query_result_def
      Postgres_IsDatabaseDirty_def
      neverStop_def upScript_def listSource_def dirtyRows_def atMostOneDirty_def)

end
